theory Spec2Isabelle
  imports Complex_Main "HOL-Library.Multiset" "HOL-Library.Sublist"
    "HOL-Library.List_Lexorder" "HOL-Library.Char_ord"
begin

section \<open>Backoff policies\<close>

text \<open>
  \<^verbatim>\<open>jitter()\<close> is \<^verbatim>\<open>Math.random() * 100.0\<close>, and a delay is \<^verbatim>\<open>2 ** iteration * 100 + jitter()\<close>
  or \<^verbatim>\<open>100 + jitter()\<close>, all computed in IEEE double precision. The draw of
  \<^verbatim>\<open>Math.random()\<close> is an explicit argument \<open>u\<close>, and the addition, the multiplication
  and the exponentiation of doubles are the parameters \<open>fadd\<close>, \<open>fmul\<close> and \<open>fpow\<close> of
  the model; a double is the real number it denotes.

  \<open>is_double\<close> holds of the finite doubles, and \<open>nearest_double r x\<close> says that \<open>r\<close> is a
  double nearest to the real \<open>x\<close>: what an IEEE operation with the exact result \<open>x\<close>
  returns, whatever the rule for ties.
\<close>

definition is_double :: "real \<Rightarrow> bool" where
  "is_double x \<longleftrightarrow>
     (\<exists>m e. x = of_int m * 2 powi e \<and> \<bar>m\<bar> < 2 ^ 53 \<and> - 1074 \<le> e \<and> e \<le> 971)"

definition nearest_double :: "real \<Rightarrow> real \<Rightarrow> bool" where
  "nearest_double r x \<longleftrightarrow> is_double r \<and> (\<forall>y. is_double y \<longrightarrow> \<bar>r - x\<bar> \<le> \<bar>y - x\<bar>)"

definition jitter :: "(real \<Rightarrow> real \<Rightarrow> real) \<Rightarrow> real \<Rightarrow> real" where
  "jitter fmul u = fmul u 100"

definition geometricBackoff ::
  "(real \<Rightarrow> real \<Rightarrow> real) \<Rightarrow> (real \<Rightarrow> real \<Rightarrow> real) \<Rightarrow> (real \<Rightarrow> nat \<Rightarrow> real) \<Rightarrow>
   real \<Rightarrow> nat \<Rightarrow> real" where
  "geometricBackoff fadd fmul fpow u iteration =
     fadd (fmul (fpow 2 iteration) 100) (jitter fmul u)"

definition linearBackoff ::
  "(real \<Rightarrow> real \<Rightarrow> real) \<Rightarrow> (real \<Rightarrow> real \<Rightarrow> real) \<Rightarrow> real \<Rightarrow> real" where
  "linearBackoff fadd fmul u = fadd 100 (jitter fmul u)"

section \<open>Retry executor\<close>

definition MAX_ATTEMPTS :: nat where
  "MAX_ATTEMPTS = 5"

text \<open>
  The operation \<open>fn\<close> is a closure that may answer differently on every call:
  \<open>fn k\<close> is the outcome of its \<open>k\<close>-th invocation (\<open>Inl\<close> a rejection, \<open>Inr\<close> a
  value). \<open>onFail\<close> tells whether an observer was supplied; its invocations are
  recorded in the trace together with the calls of \<open>fn\<close> and the waits.
  \<open>rnd k\<close> is the random draw used by the backoff strategy after attempt \<open>k\<close>.
\<close>

datatype 'e retry_error = Thrown 'e | ShouldBeUnreachable

datatype 'e effect = Call nat | OnFail 'e | WaitForTime real

function retry_loop ::
  "(nat \<Rightarrow> 'e + 'a) \<Rightarrow> (real \<Rightarrow> nat \<Rightarrow> real) \<Rightarrow> bool \<Rightarrow> (nat \<Rightarrow> real) \<Rightarrow>
   nat \<Rightarrow> 'e effect list \<Rightarrow> 'e effect list \<times> ('e retry_error + 'a)" where
  "retry_loop fn backOffStrategy onFail rnd currentAttempt tr =
     (if currentAttempt \<le> MAX_ATTEMPTS then
        (let attempt = currentAttempt + 1 in
         case fn attempt of
           Inr v \<Rightarrow> (tr @ [Call attempt], Inr v)
         | Inl e \<Rightarrow>
             (let tr1 = tr @ [Call attempt] @ (if onFail then [OnFail e] else []) in
              if attempt = MAX_ATTEMPTS then (tr1, Inl (Thrown e))
              else retry_loop fn backOffStrategy onFail rnd attempt
                     (tr1 @ [WaitForTime (backOffStrategy (rnd attempt) attempt)])))
      else (tr, Inl ShouldBeUnreachable))"
  by pat_completeness auto
termination
  by (relation "measure (\<lambda>(fn, b, h, rnd, n, tr). Suc MAX_ATTEMPTS - n)") auto

declare retry_loop.simps [simp del]

definition retry ::
  "(nat \<Rightarrow> 'e + 'a) \<Rightarrow> (real \<Rightarrow> nat \<Rightarrow> real) \<Rightarrow> bool \<Rightarrow> (nat \<Rightarrow> real) \<Rightarrow>
   'e effect list \<times> ('e retry_error + 'a)" where
  "retry fn backOffStrategy onFail rnd = retry_loop fn backOffStrategy onFail rnd 0 []"

definition exponentialBackoffRetry ::
  "(real \<Rightarrow> real \<Rightarrow> real) \<Rightarrow> (real \<Rightarrow> real \<Rightarrow> real) \<Rightarrow> (real \<Rightarrow> nat \<Rightarrow> real) \<Rightarrow>
   (nat \<Rightarrow> 'e + 'a) \<Rightarrow> bool \<Rightarrow> (nat \<Rightarrow> real) \<Rightarrow> 'e effect list \<times> ('e retry_error + 'a)" where
  "exponentialBackoffRetry fadd fmul fpow fn onFail rnd =
     retry fn (geometricBackoff fadd fmul fpow) onFail rnd"

definition linearBackoffRetry ::
  "(real \<Rightarrow> real \<Rightarrow> real) \<Rightarrow> (real \<Rightarrow> real \<Rightarrow> real) \<Rightarrow> (nat \<Rightarrow> 'e + 'a) \<Rightarrow> bool \<Rightarrow>
   (nat \<Rightarrow> real) \<Rightarrow> 'e effect list \<times> ('e retry_error + 'a)" where
  "linearBackoffRetry fadd fmul fn onFail rnd =
     retry fn (\<lambda>u iteration. linearBackoff fadd fmul u) onFail rnd"

text \<open>Projections of a trace: the attempts made, the failures observed, the delays slept.\<close>

fun calls :: "'e effect list \<Rightarrow> nat list" where
  "calls [] = []"
| "calls (Call k # tr) = k # calls tr"
| "calls (_ # tr) = calls tr"

fun observed :: "'e effect list \<Rightarrow> 'e list" where
  "observed [] = []"
| "observed (OnFail e # tr) = e # observed tr"
| "observed (_ # tr) = observed tr"

fun waits :: "'e effect list \<Rightarrow> real list" where
  "waits [] = []"
| "waits (WaitForTime d # tr) = d # waits tr"
| "waits (_ # tr) = waits tr"

section \<open>Bounded dispatcher\<close>

text \<open>
  \<^verbatim>\<open>concurrentWithRetry\<close> runs on one thread with cooperative suspension. Its state
  is the index of the next task to launch, the in-flight promises (named by the index
  of their task, in launch order) and the \<^verbatim>\<open>results\<close> array, which JavaScript
  extends with holes when an index beyond its length is written.

  \<open>retryFn t\<close> is the eventual outcome of \<^verbatim>\<open>retryFn(t, handler)\<close>. Which in-flight
  promise settles next is decided by the environment: \<open>sched k\<close> picks it at the
  \<open>k\<close>-th settlement, and \<open>burst k\<close> says how many further promises settle before the
  suspended main loop runs again. Console output is not modelled.
\<close>

record 'r dispatcher =
  taskIndex :: nat
  activePromises :: "nat list"
  results :: "'r option list"

definition array_set :: "'a option list \<Rightarrow> nat \<Rightarrow> 'a \<Rightarrow> 'a option list" where
  "array_set xs i v =
     (if i < length xs then xs[i := Some v]
      else xs @ replicate (i - length xs) None @ [Some v])"

text \<open>
  \<^verbatim>\<open>executeTask(i)\<close> settling: on success the result is stored at index \<open>i\<close>; in
  both cases the \<^verbatim>\<open>finally\<close> handler removes the promise from the active list.
\<close>

definition settle_task ::
  "('t \<Rightarrow> 'e + 'r) \<Rightarrow> 't list \<Rightarrow> nat \<Rightarrow> 'r dispatcher \<Rightarrow> 'r dispatcher" where
  "settle_task retryFn tasks i d =
     (case retryFn (tasks ! i) of
        Inr res \<Rightarrow>
          d\<lparr>results := array_set (results d) i res,
            activePromises := filter (\<lambda>p. p \<noteq> i) (activePromises d)\<rparr>
      | Inl e \<Rightarrow> d\<lparr>activePromises := filter (\<lambda>p. p \<noteq> i) (activePromises d)\<rparr>)"

definition pick :: "(nat \<Rightarrow> nat) \<Rightarrow> nat \<Rightarrow> 'r dispatcher \<Rightarrow> nat" where
  "pick sched k d = activePromises d ! (sched k mod length (activePromises d))"

fun settle_some ::
  "('t \<Rightarrow> 'e + 'r) \<Rightarrow> 't list \<Rightarrow> (nat \<Rightarrow> nat) \<Rightarrow> nat \<Rightarrow> nat \<Rightarrow> 'r dispatcher \<Rightarrow>
   'r dispatcher" where
  "settle_some retryFn tasks sched k 0 d = d"
| "settle_some retryFn tasks sched k (Suc c) d =
     (if activePromises d = [] then d
      else settle_some retryFn tasks sched (Suc k) c
             (settle_task retryFn tasks (pick sched k d) d))"

lemma pick_in_active: "activePromises d \<noteq> [] \<Longrightarrow> pick sched k d \<in> set (activePromises d)"
  by (simp add: pick_def)

lemma settle_task_taskIndex [simp]: "taskIndex (settle_task retryFn tasks i d) = taskIndex d"
  by (simp add: settle_task_def split: sum.splits)

lemma settle_task_active [simp]:
  "activePromises (settle_task retryFn tasks i d) = filter (\<lambda>p. p \<noteq> i) (activePromises d)"
  by (simp add: settle_task_def split: sum.splits)

lemma settle_task_shrinks:
  "i \<in> set (activePromises d) \<Longrightarrow>
   length (activePromises (settle_task retryFn tasks i d)) < length (activePromises d)"
  by (simp add: length_filter_less)

lemma settle_some_taskIndex [simp]:
  "taskIndex (settle_some retryFn tasks sched k c d) = taskIndex d"
  by (induction c arbitrary: k d) simp_all

lemma settle_some_shrinks:
  "length (activePromises (settle_some retryFn tasks sched k c d)) \<le> length (activePromises d)"
proof (induction c arbitrary: k d)
  case 0
  show ?case by simp
next
  case (Suc c)
  show ?case
  proof (cases "activePromises d = []")
    case True
    then show ?thesis by simp
  next
    case False
    have "length (activePromises (settle_task retryFn tasks (pick sched k d) d))
            < length (activePromises d)"
      using False by (intro settle_task_shrinks pick_in_active)
    with Suc[of "Suc k" "settle_task retryFn tasks (pick sched k d) d"] False show ?thesis
      by simp
  qed
qed

text \<open>
  \<^verbatim>\<open>await Promise.all(activePromises)\<close>: the in-flight promises settle one after
  another; the first rejection rejects the whole call.
\<close>

function await_all ::
  "('t \<Rightarrow> 'e + 'r) \<Rightarrow> 't list \<Rightarrow> (nat \<Rightarrow> nat) \<Rightarrow> nat \<Rightarrow> 'r dispatcher \<Rightarrow>
   'e + 'r option list" where
  "await_all retryFn tasks sched k d =
     (if activePromises d = [] then Inr (results d)
      else (case retryFn (tasks ! pick sched k d) of
              Inl e \<Rightarrow> Inl e
            | Inr _ \<Rightarrow> await_all retryFn tasks sched (Suc k)
                        (settle_task retryFn tasks (pick sched k d) d)))"
  by pat_completeness auto
termination
  by (relation "measure (\<lambda>(retryFn, tasks, sched, k, d). length (activePromises d))")
     (auto intro!: length_filter_less pick_in_active)

declare await_all.simps [simp del]

text \<open>
  The main loop. \<^verbatim>\<open>await Promise.race(activePromises)\<close> on an empty list never
  settles, which is the value \<open>None\<close>; otherwise the first promise to settle decides
  the race, and a rejection is thrown to the caller.
\<close>

function dispatch_loop ::
  "('t \<Rightarrow> 'e + 'r) \<Rightarrow> 't list \<Rightarrow> int \<Rightarrow> (nat \<Rightarrow> nat) \<Rightarrow> (nat \<Rightarrow> nat) \<Rightarrow> nat \<Rightarrow>
   'r dispatcher \<Rightarrow> ('e + 'r option list) option" where
  "dispatch_loop retryFn tasks concurrencyLimit sched burst k d =
     (if taskIndex d < length tasks then
        (if int (length (activePromises d)) < concurrencyLimit then
           dispatch_loop retryFn tasks concurrencyLimit sched burst k
             (d\<lparr>activePromises := activePromises d @ [taskIndex d],
                taskIndex := taskIndex d + 1\<rparr>)
         else if activePromises d = [] then None
         else (case retryFn (tasks ! pick sched k d) of
                 Inl e \<Rightarrow> Some (Inl e)
               | Inr _ \<Rightarrow>
                   dispatch_loop retryFn tasks concurrencyLimit sched burst (Suc k + burst k)
                     (settle_some retryFn tasks sched (Suc k) (burst k)
                        (settle_task retryFn tasks (pick sched k d) d))))
      else Some (await_all retryFn tasks sched k d))"
  by pat_completeness auto
termination
proof (relation "measure (\<lambda>(retryFn, tasks, lim, sched, burst, k, d).
         2 * (length tasks - taskIndex d) + length (activePromises d))", goal_cases)
  case 1
  show ?case by simp
next
  case (2 retryFn tasks concurrencyLimit sched burst k d)
  then show ?case by simp
next
  case (3 retryFn tasks concurrencyLimit sched burst k d x2)
  let ?d1 = "settle_task retryFn tasks (pick sched k d) d"
  have "length (activePromises ?d1) < length (activePromises d)"
    using 3 by (intro settle_task_shrinks pick_in_active)
  moreover have
    "length (activePromises (settle_some retryFn tasks sched (Suc k) (burst k) ?d1))
       \<le> length (activePromises ?d1)"
    by (rule settle_some_shrinks)
  ultimately show ?case by simp
qed

declare dispatch_loop.simps [simp del]

definition concurrentWithRetry ::
  "('t \<Rightarrow> 'e + 'r) \<Rightarrow> 't list \<Rightarrow> int \<Rightarrow> (nat \<Rightarrow> nat) \<Rightarrow> (nat \<Rightarrow> nat) \<Rightarrow>
   ('e + 'r option list) option" where
  "concurrentWithRetry retryFn tasks concurrencyLimit sched burst =
     dispatch_loop retryFn tasks concurrencyLimit sched burst 0
       \<lparr>taskIndex = 0, activePromises = [], results = []\<rparr>"


section \<open>Event aggregator\<close>

subsection \<open>Events, steps and tests\<close>

text \<open>
  Modelled from the spec: the declarations of \<^verbatim>\<open>StepEvent\<close> (module \<^verbatim>\<open>./support\<close>) and
  of \<^verbatim>\<open>Test\<close> and \<^verbatim>\<open>TestStep\<close> (package \<^verbatim>\<open>@replayio/test-utils\<close>) are not among the
  sources. The records below hold the fields that \<^verbatim>\<open>groupStepsByTest\<close> reads and
  writes, with the optional ones as options, as the data model of the specification
  lists them.

  Command arguments are arbitrary JavaScript values; the aggregator only tells
  objects from the rest and looks at the \<^verbatim>\<open>log\<close> property of the last argument.
\<close>

datatype jsval = JUndefined | JNull | JBool bool | JNum int | JStr string
  | JObj "(string \<times> jsval) list"

datatype event_kind = StepEnqueue | StepStart | StepEnd | TestStart | TestEnd

datatype category = Assertion | Command | Other

datatype hook_kind = BeforeEach | AfterEach | BeforeAll | AfterAll

datatype test_result = Passed | Failed | TimedOut | Skipped | Unknown

record TestError =
  message :: string
  line :: "nat option"
  column :: "nat option"

record CommandLike =
  cmd_id :: string
  groupId :: "string option"
  cmd_commandId :: "string option"
  cmd_name :: string
  cmd_args :: "jsval list"

record StepEvent =
  event :: event_kind
  timestamp :: string
  test :: "string list"
  ev_file :: string
  command :: "CommandLike option"
  ev_category :: "category option"
  ev_hook :: "hook_kind option"
  ev_error :: "TestError option"

record TestStep =
  step_id :: string
  parentId :: "string option"
  step_name :: string
  args :: "jsval list"
  commandId :: "string option"
  step_relativeStartTime :: int
  category :: category
  hook :: "hook_kind option"
  step_duration :: "int option"
  error :: "TestError option"
  assertIds :: "string list option"

text \<open>
  A \<^verbatim>\<open>TestStep\<close> object is shared between the \<^verbatim>\<open>steps\<close> array of its test and
  the step stack, and both see its later mutations. The objects therefore live in a
  store (\<open>heap\<close>, addressed by position); a test holds the addresses of its steps
  while the aggregation runs and the steps themselves in the result.
\<close>

record 's Test =
  title :: string
  path :: "string list"
  result :: test_result
  relativePath :: string
  relativeStartTime :: int
  steps :: "'s list"
  duration :: "int option"

datatype agg_error =
  CurrentTestMissing
  | MismatchedStep StepEvent "StepEvent option"
  | TypeError

record agg_state =
  tests :: "nat Test list"
  heap :: "TestStep list"
  stepStack :: "(StepEvent \<times> nat) list"
  skippedStepIds :: "string list"
  activeGroup :: "(string \<times> string) option"
  currentTest :: "nat option"

subsection \<open>Helpers\<close>

text \<open>
  \<^verbatim>\<open>toTime\<close> is \<^verbatim>\<open>new Date(timestamp).getTime()\<close>. The parser of the runtime is a
  parameter \<open>toTime\<close> of the model (timestamps are assumed to parse, so times are
  integers of milliseconds).

  \<^verbatim>\<open>String.prototype.localeCompare\<close> is a parameter \<open>localeCompare\<close> of the model as
  well: the collation of the runtime may order strings otherwise than by code points, and
  may tie strings that differ. \<open>compare_steps\<close> is the comparator the source passes to
  \<^verbatim>\<open>Array.prototype.sort\<close>. The sort is stable; \<open>stable_sort\<close> inserts each element before
  the first element that does not precede it, which is the one stable sorted arrangement
  when the comparator is consistent (\<open>consistent_comparator\<close>: antisymmetric, with a
  transitive \<open>\<le>\<close>).
\<close>

fun insort_cmp :: "('a \<Rightarrow> 'a \<Rightarrow> int) \<Rightarrow> 'a \<Rightarrow> 'a list \<Rightarrow> 'a list" where
  "insort_cmp cmp x [] = [x]"
| "insort_cmp cmp x (y # ys) =
     (if cmp x y \<le> 0 then x # y # ys else y # insort_cmp cmp x ys)"

definition stable_sort :: "('a \<Rightarrow> 'a \<Rightarrow> int) \<Rightarrow> 'a list \<Rightarrow> 'a list" where
  "stable_sort cmp xs = foldr (insort_cmp cmp) xs []"

definition consistent_comparator :: "('a \<Rightarrow> 'a \<Rightarrow> int) \<Rightarrow> bool" where
  "consistent_comparator cmp \<longleftrightarrow>
     (\<forall>a b. (cmp a b < 0) = (0 < cmp b a))
     \<and> (\<forall>a b c. cmp a b \<le> 0 \<longrightarrow> cmp b c \<le> 0 \<longrightarrow> cmp a c \<le> 0)"

definition compare_steps :: "(string \<Rightarrow> string \<Rightarrow> int) \<Rightarrow> StepEvent \<Rightarrow> StepEvent \<Rightarrow> int" where
  "compare_steps localeCompare a b = localeCompare (timestamp a) (timestamp b)"

definition toRelativeTime :: "(string \<Rightarrow> int) \<Rightarrow> string \<Rightarrow> int \<Rightarrow> int" where
  "toRelativeTime toTime ts startTime = toTime ts - startTime"

definition last_elem :: "'a list \<Rightarrow> 'a option" where
  "last_elem xs = (if xs = [] then None else Some (last xs))"

fun find_index :: "('a \<Rightarrow> bool) \<Rightarrow> 'a list \<Rightarrow> nat option" where
  "find_index P [] = None"
| "find_index P (x # xs) = (if P x then Some 0 else map_option Suc (find_index P xs))"

definition truthy :: "string option \<Rightarrow> bool" where
  "truthy s = (case s of None \<Rightarrow> False | Some v \<Rightarrow> v \<noteq> [])"

fun array_toString :: "string list \<Rightarrow> string" where
  "array_toString [] = []"
| "array_toString [x] = x"
| "array_toString (x # xs) = x @ '','' @ array_toString xs"

fun log_disabled :: "jsval \<Rightarrow> bool" where
  "log_disabled (JObj kvs) = (map_of kvs ''log'' = Some (JBool False))"
| "log_disabled _ = False"

definition lastArg :: "StepEvent \<Rightarrow> jsval" where
  "lastArg step =
     (case command step of
        None \<Rightarrow> JUndefined
      | Some c \<Rightarrow> (case last_elem (cmd_args c) of None \<Rightarrow> JUndefined | Some a \<Rightarrow> a))"

definition shouldSkipStep :: "StepEvent \<Rightarrow> string list \<Rightarrow> bool" where
  "shouldSkipStep step skippedSteps =
     (if log_disabled (lastArg step) then True
      else if (case command step of None \<Rightarrow> False | Some c \<Rightarrow> cmd_id c \<in> set skippedSteps)
        then True
      else if (case command step of
                 None \<Rightarrow> False
               | Some c \<Rightarrow> (case groupId c of None \<Rightarrow> False | Some g \<Rightarrow> g \<in> set skippedSteps))
        then True
      else False)"

fun sanitize_arg :: "jsval \<Rightarrow> jsval" where
  "sanitize_arg (JObj kvs) = JObj []"
| "sanitize_arg a = a"

subsection \<open>Seeding the tests\<close>

definition make_test :: "(string \<Rightarrow> int) \<Rightarrow> int \<Rightarrow> StepEvent \<Rightarrow> nat Test" where
  "make_test toTime firstTimestamp step =
     \<lparr>title = (case last_elem (test step) of
                 None \<Rightarrow> ev_file step
               | Some t \<Rightarrow> if t = [] then ev_file step else t),
      path = test step,
      result = Passed,
      relativePath = ev_file step,
      relativeStartTime = toRelativeTime toTime (timestamp step) firstTimestamp,
      steps = [],
      duration = None\<rparr>"

definition testForStep :: "'s Test list \<Rightarrow> StepEvent \<Rightarrow> nat option" where
  "testForStep ts step = find_index (\<lambda>t. Some (title t) = last_elem (test step)) ts"

subsection \<open>The loop body\<close>

text \<open>The head of the loop: resolve the test of the event, drop the group on a change.\<close>

definition resolve_current :: "agg_state \<Rightarrow> StepEvent \<Rightarrow> agg_state" where
  "resolve_current s step =
     (let found = testForStep (tests s) step
      in (if currentTest s \<noteq> found then s\<lparr>activeGroup := None\<rparr> else s)
           \<lparr>currentTest := found\<rparr>)"

text \<open>The ids pushed on \<^verbatim>\<open>skippedStepIds\<close> when a \<^verbatim>\<open>step:start\<close> is skipped.\<close>

definition skip_ids :: "StepEvent \<Rightarrow> string list" where
  "skip_ids step =
     (case command step of
        None \<Rightarrow> []
      | Some c \<Rightarrow> (if cmd_id c \<noteq> [] then [cmd_id c] else []) @
                  (case groupId c of None \<Rightarrow> [] | Some g \<Rightarrow> if g \<noteq> [] then [g] else []))"

text \<open>The parent of a new step and the group that is active after it.\<close>

definition resolve_parent ::
  "(string \<times> string) option \<Rightarrow> CommandLike \<Rightarrow> string option \<times> (string \<times> string) option" where
  "resolve_parent active c =
     (if (case active of None \<Rightarrow> False | Some (g, p) \<Rightarrow> Some g = groupId c)
      then (map_option snd active, active)
      else (None, (case groupId c of
                     None \<Rightarrow> active
                   | Some g \<Rightarrow> if g \<noteq> [] then Some (g, cmd_id c) else active)))"

definition make_step ::
  "(string \<Rightarrow> int) \<Rightarrow> int \<Rightarrow> 's Test \<Rightarrow> StepEvent \<Rightarrow> CommandLike \<Rightarrow> string option \<Rightarrow> TestStep" where
  "make_step toTime firstTimestamp current step c parent =
     \<lparr>step_id = cmd_id c,
      parentId = parent,
      step_name = cmd_name c,
      args = map sanitize_arg (cmd_args c),
      commandId = cmd_commandId c,
      step_relativeStartTime =
        toRelativeTime toTime (timestamp step) firstTimestamp - relativeStartTime current,
      category = (case ev_category step of None \<Rightarrow> Other | Some k \<Rightarrow> k),
      hook = ev_hook step,
      step_duration = None,
      error = None,
      assertIds = None\<rparr>"

text \<open>
  An assertion with a \<^verbatim>\<open>commandId\<close> is added to the \<^verbatim>\<open>assertIds\<close> of the first step of
  the current test that has this id.
\<close>

definition link_assert :: "TestStep list \<Rightarrow> nat list \<Rightarrow> string option \<Rightarrow> string \<Rightarrow> TestStep list" where
  "link_assert h addrs cid newId =
     (if truthy cid then
        (case find (\<lambda>a. step_id (h ! a) = the cid) addrs of
           None \<Rightarrow> h
         | Some a \<Rightarrow>
             h[a := (h ! a)\<lparr>assertIds :=
                     Some ((case assertIds (h ! a) of None \<Rightarrow> [] | Some ids \<Rightarrow> ids) @ [newId])\<rparr>])
      else h)"

definition on_step_start ::
  "(string \<Rightarrow> int) \<Rightarrow> int \<Rightarrow> agg_state \<Rightarrow> nat \<Rightarrow> StepEvent \<Rightarrow> agg_error + agg_state" where
  "on_step_start toTime firstTimestamp s ti step =
     (if shouldSkipStep step (skippedStepIds s) then
        Inr (s\<lparr>skippedStepIds := skippedStepIds s @ skip_ids step\<rparr>)
      else
        (case command step of
           None \<Rightarrow> Inl TypeError
         | Some c \<Rightarrow>
            (let (parent, group) = resolve_parent (activeGroup s) c;
                 current = tests s ! ti;
                 testStep = make_step toTime firstTimestamp current step c parent;
                 heap1 = link_assert (heap s) (steps current) (cmd_commandId c) (step_id testStep);
                 addr = length heap1
             in Inr (s\<lparr>activeGroup := group,
                       heap := heap1 @ [testStep],
                       tests := (tests s)[ti := current\<lparr>steps := steps current @ [addr]\<rparr>],
                       stepStack := stepStack s @ [(step, addr)]\<rparr>))))"

definition assertMatchingStep :: "StepEvent \<Rightarrow> StepEvent option \<Rightarrow> bool" where
  "assertMatchingStep currentStep previousStep =
     (case previousStep of
        None \<Rightarrow> False
      | Some prev \<Rightarrow>
          (case (command currentStep, command prev) of
             (Some c, Some p) \<Rightarrow> cmd_id c = cmd_id p
           | _ \<Rightarrow> False))"

text \<open>The first in-progress step with the id and the (stringified) test path of the event.\<close>

definition find_lastStep :: "agg_state \<Rightarrow> StepEvent \<Rightarrow> CommandLike \<Rightarrow> (StepEvent \<times> nat) option" where
  "find_lastStep s step c =
     find (\<lambda>(ev, a). step_id (heap s ! a) = cmd_id c
                      \<and> array_toString (test ev) = array_toString (test step))
       (stepStack s)"

definition is_after_each :: "string \<Rightarrow> StepEvent \<Rightarrow> bool" where
  "is_after_each AFTER_EACH_HOOK step =
     (case test step of [] \<Rightarrow> False | t # _ \<Rightarrow> t = AFTER_EACH_HOOK)"

text \<open>The step as left by the end event: arguments (for an assertion), duration, error.\<close>

definition end_step ::
  "(string \<Rightarrow> int) \<Rightarrow> int \<Rightarrow> 's Test \<Rightarrow> StepEvent \<Rightarrow> CommandLike \<Rightarrow> TestStep \<Rightarrow> TestStep" where
  "end_step toTime firstTimestamp current step c st =
     (let st1 = (if cmd_name c = ''assert'' then st\<lparr>args := cmd_args c\<rparr> else st);
          relativeEndTime =
            toRelativeTime toTime (timestamp step) firstTimestamp - relativeStartTime current
      in st1\<lparr>step_duration := Some (max 0 (relativeEndTime - step_relativeStartTime st1)),
             error := ev_error step\<rparr>)"

text \<open>
  \<^verbatim>\<open>AFTER_EACH_HOOK\<close> is a constant imported from a module that is not part of the
  sources at hand; it is a parameter of the model.
\<close>

definition on_step_end ::
  "(string \<Rightarrow> int) \<Rightarrow> string \<Rightarrow> int \<Rightarrow> agg_state \<Rightarrow> nat \<Rightarrow> StepEvent \<Rightarrow> agg_error + agg_state" where
  "on_step_end toTime AFTER_EACH_HOOK firstTimestamp s ti step =
     (case command step of
        None \<Rightarrow> Inl TypeError
      | Some c \<Rightarrow>
         (let lastStep = find_lastStep s step c
          in if lastStep = None \<and> cmd_id c \<in> set (skippedStepIds s) then Inr s
             else if is_after_each AFTER_EACH_HOOK step then Inr s
             else if \<not> assertMatchingStep step (map_option fst lastStep)
               then Inl (MismatchedStep step (map_option fst lastStep))
             else
               (case lastStep of
                  None \<Rightarrow> Inl (MismatchedStep step None)
                | Some (ev, a) \<Rightarrow>
                    Inr (s\<lparr>heap := (heap s)[a :=
                          end_step toTime firstTimestamp (tests s ! ti) step c (heap s ! a)]\<rparr>))))"

definition on_test_end ::
  "(string \<Rightarrow> int) \<Rightarrow> int \<Rightarrow> agg_state \<Rightarrow> nat \<Rightarrow> StepEvent \<Rightarrow> agg_state" where
  "on_test_end toTime firstTimestamp s ti step =
     s\<lparr>tests := (tests s)[ti := (tests s ! ti)\<lparr>duration :=
         Some (toRelativeTime toTime (timestamp step) firstTimestamp
                 - relativeStartTime (tests s ! ti))\<rparr>]\<rparr>"

definition process_event ::
  "(string \<Rightarrow> int) \<Rightarrow> string \<Rightarrow> int \<Rightarrow> agg_state \<Rightarrow> StepEvent \<Rightarrow> agg_error + agg_state" where
  "process_event toTime AFTER_EACH_HOOK firstTimestamp s step =
     (let s1 = resolve_current s step
      in case currentTest s1 of
           None \<Rightarrow> Inl CurrentTestMissing
         | Some ti \<Rightarrow>
             (case event step of
                StepEnqueue \<Rightarrow> Inr s1
              | StepStart \<Rightarrow> on_step_start toTime firstTimestamp s1 ti step
              | StepEnd \<Rightarrow> on_step_end toTime AFTER_EACH_HOOK firstTimestamp s1 ti step
              | TestEnd \<Rightarrow> Inr (on_test_end toTime firstTimestamp s1 ti step)
              | TestStart \<Rightarrow> Inr s1))"

subsection \<open>The aggregation pass\<close>

fun walk ::
  "(string \<Rightarrow> int) \<Rightarrow> string \<Rightarrow> int \<Rightarrow> agg_state \<Rightarrow> StepEvent list \<Rightarrow> agg_error + agg_state" where
  "walk toTime AFTER_EACH_HOOK firstTimestamp s [] = Inr s"
| "walk toTime AFTER_EACH_HOOK firstTimestamp s (step # rest) =
     (case process_event toTime AFTER_EACH_HOOK firstTimestamp s step of
        Inl err \<Rightarrow> Inl err
      | Inr s' \<Rightarrow> walk toTime AFTER_EACH_HOOK firstTimestamp s' rest)"

definition initial_state :: "(string \<Rightarrow> int) \<Rightarrow> int \<Rightarrow> StepEvent list \<Rightarrow> agg_state" where
  "initial_state toTime firstTimestamp sortedSteps =
     \<lparr>tests = map (make_test toTime firstTimestamp)
                (filter (\<lambda>a. event a = TestStart) sortedSteps),
      heap = [],
      stepStack = [],
      skippedStepIds = [],
      activeGroup = None,
      currentTest = None\<rparr>"

text \<open>The state in which the loop ends, or the error it threw.\<close>

definition aggregate ::
  "(string \<Rightarrow> int) \<Rightarrow> (string \<Rightarrow> string \<Rightarrow> int) \<Rightarrow> string \<Rightarrow> StepEvent list \<Rightarrow> int \<Rightarrow>
   agg_error + agg_state" where
  "aggregate toTime localeCompare AFTER_EACH_HOOK stepEvents firstTimestamp =
     (let sortedSteps = stable_sort (compare_steps localeCompare) stepEvents
      in walk toTime AFTER_EACH_HOOK firstTimestamp
           (initial_state toTime firstTimestamp sortedSteps) sortedSteps)"

definition resolve_steps :: "TestStep list \<Rightarrow> nat Test \<Rightarrow> TestStep Test" where
  "resolve_steps h t =
     \<lparr>title = title t, path = path t, result = result t, relativePath = relativePath t,
      relativeStartTime = relativeStartTime t, steps = map (\<lambda>a. h ! a) (steps t),
      duration = duration t\<rparr>"

definition groupStepsByTest ::
  "(string \<Rightarrow> int) \<Rightarrow> (string \<Rightarrow> string \<Rightarrow> int) \<Rightarrow> string \<Rightarrow> StepEvent list \<Rightarrow> int \<Rightarrow>
   agg_error + TestStep Test list" where
  "groupStepsByTest toTime localeCompare AFTER_EACH_HOOK stepEvents firstTimestamp =
     (if stepEvents = [] then Inr []
      else (case aggregate toTime localeCompare AFTER_EACH_HOOK stepEvents firstTimestamp of
              Inl err \<Rightarrow> Inl err
            | Inr s \<Rightarrow> Inr (map (resolve_steps (heap s)) (tests s))))"

subsection \<open>Invariants of the aggregation pass\<close>

text \<open>
  Properties of every state the loop reaches. Addresses held by the tests and by the
  step stack point into the store; a step on the stack is listed by exactly the test
  its event resolved to; the active group was opened by a started step of the current
  test; a step with a parent has, among the started steps of its own test, one that
  opened its group under the parent's id; and no duration is negative.
\<close>

definition addrs_ok :: "agg_state \<Rightarrow> bool" where
  "addrs_ok s \<longleftrightarrow>
     (\<forall>xs \<in> set (map steps (tests s)). \<forall>a \<in> set xs. a < length (heap s))
     \<and> (\<forall>(e, a) \<in> set (stepStack s). a < length (heap s))"

definition attached :: "agg_state \<Rightarrow> bool" where
  "attached s \<longleftrightarrow>
     (\<forall>(e, a) \<in> set (stepStack s).
        case testForStep (tests s) e of
          None \<Rightarrow> False
        | Some ti \<Rightarrow> a \<in> set (steps (tests s ! ti))
            \<and> (\<forall>j \<in> {..<length (tests s)}. j \<noteq> ti \<longrightarrow> a \<notin> set (steps (tests s ! j))))"

definition opener :: "agg_state \<Rightarrow> string \<Rightarrow> string \<Rightarrow> nat option \<Rightarrow> bool" where
  "opener s g p t \<longleftrightarrow>
     (\<exists>(e, a) \<in> set (stepStack s).
        (case command e of None \<Rightarrow> False | Some c \<Rightarrow> cmd_id c = p \<and> groupId c = Some g)
        \<and> testForStep (tests s) e = t)"

definition group_inv :: "agg_state \<Rightarrow> bool" where
  "group_inv s \<longleftrightarrow>
     (case activeGroup s of None \<Rightarrow> True | Some (g, p) \<Rightarrow> opener s g p (currentTest s))"

definition parent_inv :: "agg_state \<Rightarrow> bool" where
  "parent_inv s \<longleftrightarrow>
     (\<forall>(e, a) \<in> set (stepStack s).
        case parentId (heap s ! a) of
          None \<Rightarrow> True
        | Some p \<Rightarrow>
            (case command e of
               None \<Rightarrow> False
             | Some c \<Rightarrow> (case groupId c of
                            None \<Rightarrow> False
                          | Some g \<Rightarrow> opener s g p (testForStep (tests s) e))))"

definition dur_inv :: "agg_state \<Rightarrow> bool" where
  "dur_inv s \<longleftrightarrow>
     (\<forall>i \<in> {..<length (heap s)}.
        case step_duration (heap s ! i) of None \<Rightarrow> True | Some d \<Rightarrow> 0 \<le> d)"

definition agg_inv :: "agg_state \<Rightarrow> bool" where
  "agg_inv s \<longleftrightarrow> addrs_ok s \<and> attached s \<and> group_inv s \<and> parent_inv s \<and> dur_inv s"

subsection \<open>Concrete timestamps and events\<close>

text \<open>
  The timestamps of the events are written by \<^verbatim>\<open>toISOString\<close>:
  \<^verbatim>\<open>YYYY-MM-DDTHH:MM:SS.mmmZ\<close>. \<open>isoTime\<close> reads this shape as \<^verbatim>\<open>Date\<close> does, in
  milliseconds since the epoch; it instantiates \<open>toTime\<close> where the model is run.
  Two timestamps of this shape differ in digits only, and \<^verbatim>\<open>localeCompare\<close> orders
  them as their code points do: \<open>iso_compare\<close> instantiates \<open>localeCompare\<close> where the
  model is run.
\<close>

definition iso_compare :: "string \<Rightarrow> string \<Rightarrow> int" where
  "iso_compare a b = (if a < b then - 1 else if a = b then 0 else 1)"

definition field :: "string \<Rightarrow> nat \<Rightarrow> nat \<Rightarrow> int" where
  "field s i n = foldl (\<lambda>acc c. 10 * acc + (of_char c - 48)) 0 (take n (drop i s))"

definition days_from_civil :: "int \<Rightarrow> int \<Rightarrow> int \<Rightarrow> int" where
  "days_from_civil y m d =
     (let y1 = (if m \<le> 2 then y - 1 else y);
          era = y1 div 400;
          yoe = y1 - era * 400;
          doy = (153 * (if m > 2 then m - 3 else m + 9) + 2) div 5 + d - 1;
          doe = yoe * 365 + yoe div 4 - yoe div 100 + doy
      in era * 146097 + doe - 719468)"

definition isoTime :: "string \<Rightarrow> int" where
  "isoTime s =
     (((days_from_civil (field s 0 4) (field s 5 2) (field s 8 2) * 24 + field s 11 2) * 60
        + field s 14 2) * 60 + field s 17 2) * 1000 + field s 20 3"

definition mk_command :: "string \<Rightarrow> string \<Rightarrow> jsval list \<Rightarrow> CommandLike" where
  "mk_command i n as =
     \<lparr>cmd_id = i, groupId = None, cmd_commandId = None, cmd_name = n, cmd_args = as\<rparr>"

definition mk_event ::
  "event_kind \<Rightarrow> string \<Rightarrow> string list \<Rightarrow> CommandLike option \<Rightarrow> StepEvent" where
  "mk_event k ts p c =
     \<lparr>event = k, timestamp = ts, test = p, ev_file = ''spec.cy.ts'', command = c,
      ev_category = None, ev_hook = None, ev_error = None\<rparr>"

text \<open>
  \<open>after_each_marker\<close> is the value given to the \<^verbatim>\<open>AFTER_EACH_HOOK\<close> parameter where
  the model is run; \<open>state_after\<close> is the state in which the loop ends on a list of
  events. The events below are the ones the examples use.
\<close>

definition after_each_marker :: string where
  \<open>after_each_marker = ''"after each" hook''\<close>

definition state_after :: "StepEvent list \<Rightarrow> agg_state" where
  "state_after es =
     (case aggregate isoTime iso_compare after_each_marker es 0 of
        Inr s \<Rightarrow> s
      | Inl err \<Rightarrow> initial_state isoTime 0 [])"

definition grouped :: "string \<Rightarrow> StepEvent \<Rightarrow> StepEvent" where
  "grouped g e = e\<lparr>command := map_option (\<lambda>c. c\<lparr>groupId := Some g\<rparr>) (command e)\<rparr>"

definition works_start :: StepEvent where
  "works_start = mk_event TestStart ''1970-01-01T00:00:00.000Z'' [''suite'', ''works''] None"

definition works_end :: StepEvent where
  "works_end = mk_event TestEnd ''1970-01-01T00:00:00.020Z'' [''suite'', ''works''] None"

definition get_start :: StepEvent where
  "get_start = mk_event StepStart ''1970-01-01T00:00:00.005Z'' [''suite'', ''works'']
     (Some (mk_command ''a'' ''get'' [JStr ''button'']))"

definition get_end :: StepEvent where
  "get_end = mk_event StepEnd ''1970-01-01T00:00:00.015Z'' [''suite'', ''works'']
     (Some (mk_command ''a'' ''get'' [JStr ''button'']))"

definition scenario :: "StepEvent list" where
  "scenario = [works_start, get_start, get_end, works_end]"

definition logoff_start :: StepEvent where
  "logoff_start = mk_event StepStart ''1970-01-01T00:00:00.005Z'' [''suite'', ''works'']
     (Some (mk_command ''a'' ''get'' [JStr ''button'', JObj [(''log'', JBool False)]]))"

definition click_start :: "string \<Rightarrow> string \<Rightarrow> string list \<Rightarrow> StepEvent" where
  "click_start i ts p = mk_event StepStart ts p (Some (mk_command i ''click'' []))"

definition assert_start :: StepEvent where
  "assert_start = mk_event StepStart ''1970-01-01T00:00:00.005Z'' [''suite'', ''works'']
     (Some (mk_command ''a'' ''assert'' [JStr ''expected 1'']))"

definition assert_end :: StepEvent where
  "assert_end = mk_event StepEnd ''1970-01-01T00:00:00.009Z'' [''suite'', ''works'']
     (Some (mk_command ''a'' ''assert'' [JStr ''expected 2'']))"

definition two_tests_grouped :: "StepEvent list" where
  "two_tests_grouped =
     [mk_event TestStart ''1970-01-01T00:00:00.000Z'' [''suite'', ''first''] None,
      mk_event TestStart ''1970-01-01T00:00:00.001Z'' [''suite'', ''second''] None,
      grouped ''g1'' (click_start ''a'' ''1970-01-01T00:00:00.005Z'' [''suite'', ''first'']),
      grouped ''g1'' (click_start ''b'' ''1970-01-01T00:00:00.006Z'' [''suite'', ''first''])]"

section \<open>Retry executor: exhaustion\<close>

lemma retry_all_fail_trace:
  assumes "\<And>k. fn k = Inl (err k)"
  shows "retry fn b onFail rnd =
     ([Call 1] @ (if onFail then [OnFail (err 1)] else []) @ [WaitForTime (b (rnd 1) 1)] @
      [Call 2] @ (if onFail then [OnFail (err 2)] else []) @ [WaitForTime (b (rnd 2) 2)] @
      [Call 3] @ (if onFail then [OnFail (err 3)] else []) @ [WaitForTime (b (rnd 3) 3)] @
      [Call 4] @ (if onFail then [OnFail (err 4)] else []) @ [WaitForTime (b (rnd 4) 4)] @
      [Call 5] @ (if onFail then [OnFail (err 5)] else []),
      Inl (Thrown (err 5)))"
proof -
  have n: "Suc (Suc 0) = 2" "Suc (Suc (Suc 0)) = 3" "Suc (Suc (Suc (Suc 0))) = 4"
    "Suc (Suc (Suc (Suc (Suc 0)))) = 5"
    by simp_all
  show ?thesis
    unfolding retry_def
    by (simp add: retry_loop.simps MAX_ATTEMPTS_def assms Let_def n)
qed

text \<open>
  C3: an operation that fails on every attempt is attempted exactly five times
  (attempts 1 to 5, no more), the observer, when supplied, is invoked with the failure of
  each of the five attempts in order, and the error thrown to the caller is the one of
  the fifth attempt.
\<close>

theorem retry_exhaustion:
  assumes "\<And>k. fn k = Inl (err k)"
  shows "calls (fst (retry fn backOffStrategy True rnd)) = [1, 2, 3, 4, 5]
       \<and> observed (fst (retry fn backOffStrategy True rnd))
           = [err 1, err 2, err 3, err 4, err 5]
       \<and> snd (retry fn backOffStrategy True rnd) = Inl (Thrown (err 5))"
  by (simp add: retry_all_fail_trace[OF assms])

theorem retry_exhaustion_witness:
  "calls (fst (retry (\<lambda>k. Inl (k * 7) :: nat + unit) (geometricBackoff (+) (*) (^)) True (\<lambda>k. 0)))
     = [1, 2, 3, 4, 5]
   \<and> observed (fst (retry (\<lambda>k. Inl (k * 7) :: nat + unit) (geometricBackoff (+) (*) (^)) True (\<lambda>k. 0)))
       = [7, 14, 21, 28, 35]
   \<and> snd (retry (\<lambda>k. Inl (k * 7) :: nat + unit) (geometricBackoff (+) (*) (^)) True (\<lambda>k. 0))
       = Inl (Thrown 35)"
  using retry_exhaustion[of "\<lambda>k. Inl (k * 7) :: nat + unit" "\<lambda>k. k * 7" "geometricBackoff (+) (*) (^)" "\<lambda>k. 0"]
  by simp

section \<open>Backoff: the delay between attempts\<close>

lemma waits_append: "waits (xs @ ys) = waits xs @ waits ys"
  by (induction xs rule: waits.induct) simp_all

lemma retry_loop_extends:
  "\<exists>rest. fst (retry_loop fn b h rnd c tr) = tr @ rest"
proof (induction fn b h rnd c tr rule: retry_loop.induct)
  case (1 fn b h rnd c tr)
  show ?case
  proof (cases "c \<le> MAX_ATTEMPTS")
    case False
    then show ?thesis by (simp add: retry_loop.simps[of fn b h rnd c tr])
  next
    case le: True
    show ?thesis
    proof (cases "fn (c + 1)")
      case (Inr v)
      then show ?thesis using le by (simp add: retry_loop.simps[of fn b h rnd c tr])
    next
      case (Inl e)
      show ?thesis
      proof (cases "c + 1 = MAX_ATTEMPTS")
        case True
        then show ?thesis using le Inl by (simp add: retry_loop.simps[of fn b h rnd c tr])
      next
        case False
        from "1.IH"[OF le refl Inl refl False] obtain rest where
          "fst (retry_loop fn b h rnd (c + 1)
                 ((tr @ [Call (c + 1)] @ (if h then [OnFail e] else []))
                  @ [WaitForTime (b (rnd (c + 1)) (c + 1))]))
           = ((tr @ [Call (c + 1)] @ (if h then [OnFail e] else []))
                  @ [WaitForTime (b (rnd (c + 1)) (c + 1))]) @ rest"
          by blast
        then show ?thesis
          using le Inl False by (simp add: retry_loop.simps[of fn b h rnd c tr])
      qed
    qed
  qed
qed

lemma retry_loop_failed_prefix:
  "n < MAX_ATTEMPTS \<Longrightarrow> \<forall>k. 1 \<le> k \<and> k \<le> n \<longrightarrow> isl (fn k) \<Longrightarrow>
   \<exists>tr. retry fn b h rnd = retry_loop fn b h rnd n tr
        \<and> waits tr = map (\<lambda>k. b (rnd k) k) [1..<Suc n]"
proof (induction n)
  case 0
  show ?case by (intro exI[of _ "[]"]) (simp add: retry_def)
next
  case (Suc n)
  then obtain tr where tr: "retry fn b h rnd = retry_loop fn b h rnd n tr"
      "waits tr = map (\<lambda>k. b (rnd k) k) [1..<Suc n]"
    by force
  from Suc.prems(2) obtain e where e: "fn (Suc n) = Inl e"
    by (cases "fn (Suc n)") auto
  let ?tr = "(tr @ [Call (Suc n)] @ (if h then [OnFail e] else []))
               @ [WaitForTime (b (rnd (Suc n)) (Suc n))]"
  have "retry_loop fn b h rnd n tr = retry_loop fn b h rnd (Suc n) ?tr"
    using Suc.prems(1) e by (simp add: retry_loop.simps[of fn b h rnd n tr])
  moreover have "waits ?tr = map (\<lambda>k. b (rnd k) k) [1..<Suc (Suc n)]"
    using tr(2) by (simp add: waits_append)
  ultimately show ?case using tr(1) by metis
qed

subsection \<open>Doubles\<close>

lemma is_double_int: "\<bar>m\<bar> < 2 ^ 53 \<Longrightarrow> is_double (of_int m)"
  unfolding is_double_def by (intro exI[of _ m] exI[of _ 0]) simp

lemma is_double_scaled:
  "\<bar>m\<bar> < 2 ^ 53 \<Longrightarrow> k \<le> 1074 \<Longrightarrow> is_double (of_int m / 2 ^ k)"
  unfolding is_double_def
  by (intro exI[of _ m] exI[of _ "- int k"]) (simp add: power_int_minus field_simps)

lemma nearest_doubleD: "nearest_double r x \<Longrightarrow> is_double y \<Longrightarrow> \<bar>r - x\<bar> \<le> \<bar>y - x\<bar>"
  unfolding nearest_double_def by blast

lemma nearest_double_exact: "is_double x \<Longrightarrow> nearest_double x x"
  unfolding nearest_double_def by simp

lemma double_below_one:
  assumes "is_double u" and "u < 1"
  shows "u \<le> 1 - 1 / 2 ^ 53"
proof -
  obtain m e where u: "u = of_int m * 2 powi e" and m: "\<bar>m\<bar> < 2 ^ 53"
    using assms(1) unfolding is_double_def by blast
  show ?thesis
  proof (cases "e \<le> - 53")
    case True
    have p: "(2::real) powi e \<le> 2 powi (- 53)"
      using True by (intro power_int_increasing) simp_all
    have p0: "0 < (2::real) powi e" by simp
    show ?thesis
    proof (cases "m \<le> 0")
      case True
      then have "u \<le> 0" using u p0 by (simp add: mult_le_0_iff)
      then show ?thesis by simp
    next
      case False
      then have "of_int m \<le> (2 ^ 53 - 1 :: real)" "0 \<le> (of_int m :: real)"
        using m by (simp_all add: of_int_le_iff[symmetric] del: of_int_le_iff)
      then have "u \<le> (2 ^ 53 - 1) * 2 powi (- 53)"
        unfolding u using p p0 by (intro mult_mono) simp_all
      also have "\<dots> = 1 - 1 / 2 ^ 53" by (simp add: power_int_minus field_simps)
      finally show ?thesis .
    qed
  next
    case False
    then have e: "0 \<le> e + 52" by simp
    have "u * 2 ^ 52 = of_int m * (2 powi e * 2 powi 52)" by (simp add: u)
    also have "2 powi e * 2 powi 52 = (2::real) powi (e + 52)"
      by (simp add: power_int_add)
    also have "\<dots> = 2 ^ nat (e + 52)" using e by (simp add: power_int_def)
    finally have "u * 2 ^ 52 = of_int (m * 2 ^ nat (e + 52))" by simp
    moreover have "u * 2 ^ 52 < 2 ^ 52" using assms(2) by simp
    ultimately have "of_int (m * 2 ^ nat (e + 52)) < (2 ^ 52 :: real)" by simp
    then have "m * 2 ^ nat (e + 52) < 2 ^ 52"
      by (metis of_int_less_iff of_int_numeral of_int_power)
    then have "m * 2 ^ nat (e + 52) \<le> 2 ^ 52 - 1" by simp
    then have "(of_int (m * 2 ^ nat (e + 52)) :: real) \<le> of_int (2 ^ 52 - 1)"
      by (rule of_int_le_iff[THEN iffD2])
    then have "u * 2 ^ 52 \<le> 2 ^ 52 - 1"
      using \<open>u * 2 ^ 52 = of_int (m * 2 ^ nat (e + 52))\<close> by simp
    then have "u \<le> 1 - 1 / 2 ^ 52" by (simp add: field_simps)
    then show ?thesis by simp
  qed
qed

lemma jitter_bounds:
  assumes u: "is_double u" "0 \<le> u" "u < 1"
    and n: "nearest_double j (u * 100)"
  shows "0 \<le> j \<and> j < 100"
proof
  have "is_double 0" using is_double_int[of 0] by simp
  from nearest_doubleD[OF n this] u(2) show "0 \<le> j" by simp
  have y: "is_double (100 - 1 / 2 ^ 46)"
    using is_double_scaled[of "100 * 2 ^ 46 - 1" 46] by (simp add: field_simps)
  have x: "u * 100 \<le> 100 - 100 / 2 ^ 53"
    using double_below_one[OF u(1,3)] by simp
  show "j < 100"
  proof (rule ccontr)
    assume "\<not> j < 100"
    then have "100 \<le> j" by simp
    with nearest_doubleD[OF n y] x show False by (simp add: abs_if split: if_splits)
  qed
qed

lemma sum_bounds:
  assumes a: "is_double a" "is_double (a + 100)" and j: "0 \<le> j" "j \<le> 100"
    and n: "nearest_double d (a + j)"
  shows "a \<le> d \<and> d \<le> a + 100"
  using nearest_doubleD[OF n a(1)] nearest_doubleD[OF n a(2)] j by (simp add: abs_if split: if_splits)

lemma grid_of_double:
  assumes "is_double y" and "2 powi (g + 52) \<le> y" and "- 1074 \<le> g"
  shows "\<exists>k. y = of_int k * 2 powi g"
proof -
  obtain m e where y: "y = of_int m * 2 powi e" and m: "\<bar>m\<bar> < 2 ^ 53"
    using assms(1) unfolding is_double_def by blast
  have "g \<le> e"
  proof (rule ccontr)
    assume "\<not> g \<le> e"
    then have "e \<le> g - 1" by simp
    then have pe: "(2::real) powi e \<le> 2 powi (g - 1)" by (intro power_int_increasing) simp_all
    have mlt: "(of_int m :: real) < 2 ^ 53"
    proof -
      have "m < 2 ^ 53" using m by simp
      then have "(of_int m :: real) < of_int (2 ^ 53)" by (rule of_int_less_iff[THEN iffD2])
      then show ?thesis by simp
    qed
    have "of_int m * 2 powi e < (2 ^ 53 :: real) * 2 powi e"
      using mlt by (intro mult_strict_right_mono) simp_all
    also have "\<dots> \<le> 2 ^ 53 * 2 powi (g - 1)"
      using pe by (intro mult_left_mono) simp_all
    finally have "y < 2 ^ 53 * 2 powi (g - 1)" unfolding y .
    also have "\<dots> = 2 powi (g + 52)"
      by (simp add: power_int_add power_int_diff)
    finally show False using assms(2) by simp
  qed
  then have ge: "0 \<le> e - g" by simp
  have "(2::real) powi e = 2 powi ((e - g) + g)" by simp
  also have "\<dots> = 2 powi (e - g) * 2 powi g" by (rule power_int_add) simp
  also have "(2::real) powi (e - g) = 2 ^ nat (e - g)" using ge by (simp add: power_int_def)
  finally have "(2::real) powi e = 2 ^ nat (e - g) * 2 powi g" .
  then have "y = of_int (m * 2 ^ nat (e - g)) * 2 powi g" by (simp add: y)
  then show ?thesis by blast
qed

lemma no_double_between:
  assumes "is_double y" and "2 powi (g + 52) \<le> y" and "- 1074 \<le> g"
    and "of_int a * 2 powi g < y" and "y < of_int (a + 1) * 2 powi g"
  shows False
proof -
  obtain k where k: "y = of_int k * 2 powi g" using grid_of_double[OF assms(1,2,3)] by blast
  have p: "0 < (2::real) powi g" by simp
  have "(of_int a :: real) < of_int k" "(of_int k :: real) < of_int (a + 1)"
    using assms(4,5) p unfolding k by (simp_all only: mult_less_cancel_right_pos)
  then have "a < k" "k < a + 1" by simp_all
  then show False by simp
qed

lemma nearest_double_300: "nearest_double 300 (200 + (100 - 1 / 2 ^ 45))"
  unfolding nearest_double_def
proof (intro conjI allI impI)
  show "is_double 300" using is_double_int[of 300] by simp
  fix y assume y: "is_double y"
  show "\<bar>300 - (200 + (100 - 1 / 2 ^ 45))\<bar> \<le> \<bar>y - (200 + (100 - 1 / 2 ^ 45))\<bar>"
  proof (rule ccontr)
    assume "\<not> ?thesis"
    then have b: "300 - 1 / 2 ^ 44 < y" "y < 300" by (simp_all add: abs_if split: if_splits)
    have "2 powi (- 44 + 52) \<le> y" using b(1) by (simp add: power_int_def)
    moreover have "of_int (300 * 2 ^ 44 - 1) * 2 powi (- 44) < y"
      using b(1) by (simp add: power_int_minus field_simps)
    moreover have "y < of_int (300 * 2 ^ 44 - 1 + 1) * 2 powi (- 44)"
      using b(2) by (simp add: power_int_minus field_simps)
    ultimately show False using no_double_between[OF y, of "- 44" "300 * 2 ^ 44 - 1"] by simp
  qed
qed

lemma nearest_double_jitter: "nearest_double (100 - 1 / 2 ^ 45) ((1 - 1 / 2 ^ 52) * 100)"
  unfolding nearest_double_def
proof (intro conjI allI impI)
  show "is_double (100 - 1 / 2 ^ 45)"
    using is_double_scaled[of "100 * 2 ^ 45 - 1" 45] by (simp add: field_simps)
  fix y assume y: "is_double y"
  show "\<bar>100 - 1 / 2 ^ 45 - (1 - 1 / 2 ^ 52) * 100\<bar> \<le> \<bar>y - (1 - 1 / 2 ^ 52) * 100\<bar>"
  proof (rule ccontr)
    assume "\<not> ?thesis"
    then have b: "100 - 2 / 2 ^ 46 < y" "y < 100 - 1 / 2 ^ 46" by (simp_all add: abs_if split: if_splits)
    have "2 powi (- 46 + 52) \<le> y" using b(1) by (simp add: power_int_def)
    moreover have "of_int (100 * 2 ^ 46 - 2) * 2 powi (- 46) < y"
      using b(1) by (simp add: power_int_minus field_simps)
    moreover have "y < of_int (100 * 2 ^ 46 - 2 + 1) * 2 powi (- 46)"
      using b(2) by (simp add: power_int_minus field_simps)
    ultimately show False using no_double_between[OF y, of "- 46" "100 * 2 ^ 46 - 2"] by simp
  qed
qed

lemma is_double_draw: "is_double (1 - 1 / 2 ^ 52)"
  using is_double_scaled[of "2 ^ 52 - 1" 52] by (simp add: field_simps)

lemma nearest_double_of_double: "is_double x \<Longrightarrow> nearest_double r x \<Longrightarrow> r = x"
  using nearest_doubleD[of r x x] by simp

lemma is_double_base:
  "n < MAX_ATTEMPTS \<Longrightarrow>
   is_double (2 ^ n) \<and> is_double (2 ^ n * 100) \<and> is_double (2 ^ n * 100 + 100)"
proof -
  assume "n < MAX_ATTEMPTS"
  then have "n \<le> 4" by (simp add: MAX_ATTEMPTS_def)
  then have "(2::int) ^ n \<le> 2 ^ 4" by (intro power_increasing) simp_all
  then have "\<bar>(2::int) ^ n\<bar> < 2 ^ 53" "\<bar>(2::int) ^ n * 100\<bar> < 2 ^ 53"
    "\<bar>(2::int) ^ n * 100 + 100\<bar> < 2 ^ 53"
    by simp_all
  from is_double_int[OF this(1)] is_double_int[OF this(2)] is_double_int[OF this(3)]
  show ?thesis by simp
qed

subsection \<open>The delay\<close>

text \<open>
  C5 (as amended): when attempts 1 to \<open>n\<close> of an operation retried with the geometric
  policy fail and \<open>n\<close> is below the attempt budget, the delay slept between attempt
  \<open>n\<close> and attempt \<open>n + 1\<close> is the double sum of \<open>100 * 2 ^ n\<close> milliseconds and the
  jitter: the exponent is the 1-based attempt number itself, since \<^verbatim>\<open>retry\<close> passes
  \<^verbatim>\<open>currentAttempt\<close> after incrementing it, and \<^verbatim>\<open>2 ** n * 100\<close> is computed without
  rounding. The jitter, the double product of a draw in \<open>[0, 1)\<close> and 100, lies in
  \<open>[0, 100)\<close>, and the delay, rounded once more, lies in the closed range
  \<open>[100 * 2 ^ n, 100 * 2 ^ n + 100]\<close>. The operations on doubles are taken to return a
  double nearest to the exact result.
\<close>

theorem geometric_backoff_delay:
  assumes "1 \<le> n" and "n < MAX_ATTEMPTS"
    and "\<And>k. 1 \<le> k \<Longrightarrow> k \<le> n \<Longrightarrow> isl (fn k)"
    and "is_double (rnd n)" and "0 \<le> rnd n" and "rnd n < 1"
    and "nearest_double (fpow 2 n) (2 ^ n)"
    and "nearest_double (fmul (fpow 2 n) 100) (fpow 2 n * 100)"
    and "nearest_double (fmul (rnd n) 100) (rnd n * 100)"
    and "nearest_double (fadd (fmul (fpow 2 n) 100) (fmul (rnd n) 100))
           (fmul (fpow 2 n) 100 + fmul (rnd n) 100)"
  shows "waits (fst (exponentialBackoffRetry fadd fmul fpow fn onFail rnd)) ! (n - 1)
           = fadd (100 * 2 ^ n) (jitter fmul (rnd n))
       \<and> 0 \<le> jitter fmul (rnd n) \<and> jitter fmul (rnd n) < 100
       \<and> 100 * 2 ^ n \<le> waits (fst (exponentialBackoffRetry fadd fmul fpow fn onFail rnd)) ! (n - 1)
       \<and> waits (fst (exponentialBackoffRetry fadd fmul fpow fn onFail rnd)) ! (n - 1)
           \<le> 100 * 2 ^ n + 100"
proof -
  let ?b = "geometricBackoff fadd fmul fpow"
  obtain tr where tr: "retry fn ?b onFail rnd = retry_loop fn ?b onFail rnd n tr"
      "waits tr = map (\<lambda>k. ?b (rnd k) k) [1..<Suc n]"
    using retry_loop_failed_prefix[of n fn ?b onFail rnd] assms(2,3) by blast
  obtain rest where "fst (retry_loop fn ?b onFail rnd n tr) = tr @ rest"
    using retry_loop_extends by blast
  then have "waits (fst (exponentialBackoffRetry fadd fmul fpow fn onFail rnd))
      = waits tr @ waits rest"
    by (simp add: exponentialBackoffRetry_def tr(1) waits_append)
  moreover have "length (waits tr) = n" "waits tr ! (n - 1) = ?b (rnd n) n"
    using assms(1) by (simp_all add: tr(2) nth_append)
  ultimately have "waits (fst (exponentialBackoffRetry fadd fmul fpow fn onFail rnd)) ! (n - 1)
      = ?b (rnd n) n"
    using assms(1) by (simp add: nth_append)
  then have d: "waits (fst (exponentialBackoffRetry fadd fmul fpow fn onFail rnd)) ! (n - 1)
      = fadd (fmul (fpow 2 n) 100) (jitter fmul (rnd n))"
    by (simp add: geometricBackoff_def)
  have b: "is_double (2 ^ n)" "is_double (2 ^ n * 100)" "is_double (2 ^ n * 100 + 100)"
    using is_double_base[OF assms(2)] by simp_all
  have p: "fpow 2 n = 2 ^ n"
    using nearest_double_of_double[OF b(1) assms(7)] .
  have m: "fmul (fpow 2 n) 100 = 2 ^ n * 100"
    using nearest_double_of_double[OF b(2)] assms(8) by (simp add: p)
  have j: "0 \<le> fmul (rnd n) 100 \<and> fmul (rnd n) 100 < 100"
    using jitter_bounds[OF assms(4,5,6,9)] .
  have "2 ^ n * 100 \<le> fadd (2 ^ n * 100) (fmul (rnd n) 100)
      \<and> fadd (2 ^ n * 100) (fmul (rnd n) 100) \<le> 2 ^ n * 100 + 100"
    using sum_bounds[OF b(2,3), of "fmul (rnd n) 100" "fadd (2 ^ n * 100) (fmul (rnd n) 100)"]
      j assms(10)
    by (simp add: m)
  with d j show ?thesis by (simp add: jitter_def m mult.commute)
qed

theorem geometric_backoff_delay_witness:
  "waits (fst (exponentialBackoffRetry (+) (*) (^)
       (\<lambda>k. if k \<le> 2 then Inl k else Inr ()) True (\<lambda>k. 1 / 2))) ! (2 - 1) = 450"
proof -
  have h: "is_double (1 / 2)" "is_double 4" "is_double 400" "is_double 50" "is_double 450"
    using is_double_scaled[of 1 1] is_double_int[of 4] is_double_int[of 400]
      is_double_int[of 50] is_double_int[of 450]
    by simp_all
  have n0: "nearest_double (2 ^ 2) (2 ^ 2)"
    using nearest_double_exact[OF h(2)] by simp
  have n1: "nearest_double (2 ^ 2 * 100) (2 ^ 2 * 100)"
    using nearest_double_exact[OF h(3)] by simp
  have n2: "nearest_double ((1 / 2) * 100) ((1 / 2) * 100)"
    using nearest_double_exact[OF h(4)] by simp
  have n3: "nearest_double (2 ^ 2 * 100 + (1 / 2) * 100) (2 ^ 2 * 100 + (1 / 2) * 100)"
    using nearest_double_exact[OF h(5)] by simp
  from geometric_backoff_delay[of 2 "\<lambda>k. if k \<le> 2 then Inl k else Inr ()" "\<lambda>k. 1 / 2"
      "(^)" "(*)" "(+)" True] h(1) n0 n1 n2 n3
  show ?thesis by (simp add: MAX_ATTEMPTS_def jitter_def)
qed

text \<open>
  The delay after the first attempt is at least 200 ms, outside the range
  \<open>[100 * 2 ^ (n - 1), 100 * 2 ^ (n - 1) + 100)\<close> at \<open>n = 1\<close>. With the draw 0 the
  operations on doubles are exact, so they are the operations on the reals.
\<close>

theorem geometric_backoff_first_delay:
  "waits (fst (exponentialBackoffRetry (+) (*) (^) (\<lambda>k. Inl k :: nat + unit) True (\<lambda>k. 0)))
     ! (1 - 1) = geometricBackoff (+) (*) (^) 0 1
   \<and> geometricBackoff (+) (*) (^) 0 1 = 200
   \<and> \<not> (geometricBackoff (+) (*) (^) 0 1 < 100 * 2 ^ (1 - 1) + 100)"
proof -
  let ?g = "geometricBackoff (+) (*) (^)"
  have "fst (exponentialBackoffRetry (+) (*) (^) (\<lambda>k. Inl k :: nat + unit) True (\<lambda>k. 0))
      = [Call 1, OnFail 1, WaitForTime (?g 0 1),
         Call 2, OnFail 2, WaitForTime (?g 0 2),
         Call 3, OnFail 3, WaitForTime (?g 0 3),
         Call 4, OnFail 4, WaitForTime (?g 0 4),
         Call 5, OnFail 5]"
    unfolding exponentialBackoffRetry_def
    by (simp add: retry_all_fail_trace[of "\<lambda>k. Inl k" "\<lambda>k. k"])
  then show ?thesis
    by (simp add: geometricBackoff_def jitter_def)
qed

lemma first_delay_exact:
  "nearest_double (2 ^ 1) (2 ^ 1) \<and> nearest_double (2 ^ 1 * 100) (2 ^ 1 * 100)
   \<and> nearest_double (0 * 100) (0 * 100)
   \<and> nearest_double (2 ^ 1 * 100 + 0 * 100) (2 ^ 1 * 100 + 0 * 100)"
  using nearest_double_exact[OF is_double_int[of 0]] nearest_double_exact[OF is_double_int[of 2]]
    nearest_double_exact[OF is_double_int[of 200]]
  by simp

text \<open>
  The upper end of the range is reached. With the draw \<open>1 - 1 / 2 ^ 52\<close>, a double below 1,
  the jitter is the double \<open>100 - 1 / 2 ^ 45\<close>, and 300 is a double nearest to the sum of 200
  and this jitter: the delay after the first attempt may be \<open>100 * 2 ^ 1 + 100\<close> itself,
  as in the run below, whose operations round these two results and are exact elsewhere.
\<close>

lemma delay_upper_bound_attained:
  "is_double (1 - 1 / 2 ^ 52) \<and> 1 - 1 / 2 ^ 52 < (1::real)
   \<and> nearest_double (100 - 1 / 2 ^ 45) ((1 - 1 / 2 ^ 52) * 100)
   \<and> nearest_double (100 * 2 ^ 1 + 100) (2 ^ 1 * 100 + (100 - 1 / 2 ^ 45))"
  using is_double_draw nearest_double_jitter nearest_double_300 by simp

lemma delay_upper_bound_run:
  "waits (fst (exponentialBackoffRetry
       (\<lambda>x y. if x = 200 \<and> y = 100 - 1 / 2 ^ 45 then 300 else x + y)
       (\<lambda>x y. if x = 1 - 1 / 2 ^ 52 \<and> y = 100 then 100 - 1 / 2 ^ 45 else x * y) (^)
       (\<lambda>k. Inl k :: nat + unit) True (\<lambda>k. 1 - 1 / 2 ^ 52))) ! (1 - 1) = 300"
proof -
  let ?g = "geometricBackoff (\<lambda>x y. if x = 200 \<and> y = 100 - 1 / 2 ^ 45 then 300 else x + y)
       (\<lambda>x y. if x = 1 - 1 / 2 ^ 52 \<and> y = 100 then 100 - 1 / 2 ^ 45 else x * y) (^)"
  have "fst (retry (\<lambda>k. Inl k :: nat + unit) ?g True (\<lambda>k. 1 - 1 / 2 ^ 52))
      = [Call 1, OnFail 1, WaitForTime (?g (1 - 1 / 2 ^ 52) 1),
         Call 2, OnFail 2, WaitForTime (?g (1 - 1 / 2 ^ 52) 2),
         Call 3, OnFail 3, WaitForTime (?g (1 - 1 / 2 ^ 52) 3),
         Call 4, OnFail 4, WaitForTime (?g (1 - 1 / 2 ^ 52) 4),
         Call 5, OnFail 5]"
    by (simp add: retry_all_fail_trace[of "\<lambda>k. Inl k" "\<lambda>k. k"])
  then show ?thesis
    by (simp add: exponentialBackoffRetry_def geometricBackoff_def jitter_def)
qed

section \<open>Bounded dispatcher: order preservation\<close>















text \<open>
  A failure decides the call only when it is the one awaited. Under a limit of 2, the
  second of three tasks fails: when it settles just after the first task has won the
  race, its rejection is observed by nobody and the call returns an array with a hole
  at index 1; when it wins the race itself, the call rejects.
\<close>

lemma dispatcher_unobserved_failure:
  "concurrentWithRetry (\<lambda>t. if t = 2 then Inl () else Inr (t * 10) :: unit + nat) [1, 2, 3] 2
       (\<lambda>k. 0) (\<lambda>k. 1) = Some (Inr [Some 10, None, Some 30])
   \<and> concurrentWithRetry (\<lambda>t. if t = 2 then Inl () else Inr (t * 10) :: unit + nat) [1, 2, 3] 2
       (\<lambda>k. 1) (\<lambda>k. 0) = Some (Inl ())"
  by (simp add: concurrentWithRetry_def dispatch_loop.simps await_all.simps settle_task_def
      array_set_def pick_def)

section \<open>Sorting with a comparator\<close>

lemma consistent_sym: "consistent_comparator cmp \<Longrightarrow> (cmp a b = 0) = (cmp b a = 0)"
  unfolding consistent_comparator_def by (metis less_irrefl linorder_neqE_linordered_idom)

lemma consistent_refl: "consistent_comparator cmp \<Longrightarrow> cmp a a = 0"
  unfolding consistent_comparator_def by (metis less_asym linorder_neqE_linordered_idom)

lemma consistent_total: "consistent_comparator cmp \<Longrightarrow> cmp a b \<le> 0 \<or> cmp b a \<le> 0"
  unfolding consistent_comparator_def by (metis less_asym not_le)

lemma consistent_trans:
  "consistent_comparator cmp \<Longrightarrow> cmp a b \<le> 0 \<Longrightarrow> cmp b c \<le> 0 \<Longrightarrow> cmp a c \<le> 0"
  unfolding consistent_comparator_def by blast

lemma consistent_tie: "consistent_comparator cmp \<Longrightarrow> cmp a b \<le> 0 \<Longrightarrow> cmp b a \<le> 0 \<Longrightarrow> cmp a b = 0"
  unfolding consistent_comparator_def by (metis antisym_conv1 not_le)

lemma consistent_tie_trans:
  assumes "consistent_comparator cmp" and "cmp a b = 0" and "cmp b c = 0"
  shows "cmp a c = 0"
proof -
  have "cmp b a = 0" "cmp c b = 0" using assms consistent_sym by metis+
  then have "cmp a c \<le> 0" "cmp c a \<le> 0"
    using assms consistent_trans[OF assms(1), of a b c] consistent_trans[OF assms(1), of c b a] by simp_all
  then show ?thesis using consistent_tie[OF assms(1)] by blast
qed

lemma mset_insort_cmp [simp]: "mset (insort_cmp cmp x xs) = add_mset x (mset xs)"
  by (induction xs) simp_all

lemma mset_stable_sort [simp]: "mset (stable_sort cmp xs) = mset xs"
  by (induction xs) (simp_all add: stable_sort_def)

lemma set_insort_cmp [simp]: "set (insort_cmp cmp x xs) = insert x (set xs)"
  by (induction xs) auto

lemma set_stable_sort [simp]: "set (stable_sort cmp xs) = set xs"
  using mset_stable_sort[of cmp xs] by (metis set_mset_mset)

lemma sorted_insort_cmp:
  assumes "consistent_comparator cmp"
  shows "sorted_wrt (\<lambda>a b. cmp a b \<le> 0) xs \<Longrightarrow> sorted_wrt (\<lambda>a b. cmp a b \<le> 0) (insort_cmp cmp x xs)"
proof (induction xs)
  case Nil
  then show ?case by simp
next
  case (Cons y ys)
  show ?case
  proof (cases "cmp x y \<le> 0")
    case True
    then have "\<forall>z \<in> set ys. cmp x z \<le> 0"
      using Cons.prems consistent_trans[OF assms, of x y] by auto
    then show ?thesis using True Cons.prems by simp
  next
    case False
    then have "cmp y x \<le> 0" using consistent_total[OF assms, of x y] by simp
    then show ?thesis using False Cons by auto
  qed
qed

lemma sorted_stable_sort:
  "consistent_comparator cmp \<Longrightarrow> sorted_wrt (\<lambda>a b. cmp a b \<le> 0) (stable_sort cmp xs)"
  by (induction xs) (simp_all add: stable_sort_def sorted_insort_cmp)

lemma filter_insort_cmp:
  assumes "consistent_comparator cmp"
  shows "filter (\<lambda>z. cmp z k = 0) (insort_cmp cmp x xs)
           = filter (\<lambda>z. cmp z k = 0) (x # xs)"
proof (induction xs)
  case Nil
  show ?case by simp
next
  case (Cons y ys)
  show ?case
  proof (cases "cmp x y \<le> 0")
    case True
    then show ?thesis by simp
  next
    case False
    have "\<not> (cmp x k = 0 \<and> cmp y k = 0)"
    proof
      assume t: "cmp x k = 0 \<and> cmp y k = 0"
      then have "cmp k y = 0" using consistent_sym[OF assms] by metis
      then have "cmp x y = 0" using t consistent_tie_trans[OF assms, of x k y] by simp
      then show False using False by simp
    qed
    then show ?thesis using False Cons by auto
  qed
qed

lemma filter_stable_sort:
  "consistent_comparator cmp \<Longrightarrow>
   filter (\<lambda>z. cmp z k = 0) (stable_sort cmp xs) = filter (\<lambda>z. cmp z k = 0) xs"
proof (induction xs)
  case Nil
  show ?case by (simp add: stable_sort_def)
next
  case (Cons x xs)
  have "stable_sort cmp (x # xs) = insort_cmp cmp x (stable_sort cmp xs)"
    by (simp add: stable_sort_def)
  then show ?case using Cons filter_insort_cmp[of cmp k x "stable_sort cmp xs"] by simp
qed

lemma sorted_stable_unique:
  assumes c: "consistent_comparator cmp"
  shows "sorted_wrt (\<lambda>a b. cmp a b \<le> 0) as \<Longrightarrow> sorted_wrt (\<lambda>a b. cmp a b \<le> 0) bs \<Longrightarrow>
         mset as = mset bs \<Longrightarrow>
         (\<forall>e \<in> set as. filter (\<lambda>z. cmp z e = 0) as = filter (\<lambda>z. cmp z e = 0) bs) \<Longrightarrow>
         as = bs"
proof (induction as arbitrary: bs)
  case Nil
  then show ?case by simp
next
  case (Cons x as)
  then obtain y bs' where bs: "bs = y # bs'"
    by (cases bs) auto
  have sets: "set (x # as) = set (y # bs')"
    using Cons.prems(3) bs by (metis set_mset_mset)
  have "cmp x y \<le> 0"
  proof (cases "y = x")
    case True
    then show ?thesis using consistent_refl[OF c, of x] by simp
  next
    case False
    then have "y \<in> set as" using sets by auto
    then show ?thesis using Cons.prems(1) by simp
  qed
  moreover have "cmp y x \<le> 0"
  proof (cases "x = y")
    case True
    then show ?thesis using consistent_refl[OF c, of x] by simp
  next
    case False
    then have "x \<in> set bs'" using sets by auto
    then show ?thesis using Cons.prems(2) bs by simp
  qed
  ultimately have "cmp y x = 0" using consistent_tie[OF c] by blast
  moreover have "cmp x x = 0" by (rule consistent_refl[OF c])
  moreover have "filter (\<lambda>z. cmp z x = 0) (x # as) = filter (\<lambda>z. cmp z x = 0) (y # bs')"
    using Cons.prems(4) bs by simp
  ultimately have xy: "x = y" by simp
  have "as = bs'"
  proof (rule Cons.IH)
    show "sorted_wrt (\<lambda>a b. cmp a b \<le> 0) as" using Cons.prems(1) by simp
    show "sorted_wrt (\<lambda>a b. cmp a b \<le> 0) bs'" using Cons.prems(2) bs by simp
    show "mset as = mset bs'" using Cons.prems(3) bs xy by simp
    show "\<forall>e \<in> set as. filter (\<lambda>z. cmp z e = 0) as = filter (\<lambda>z. cmp z e = 0) bs'"
    proof
      fix e assume "e \<in> set as"
      then have "filter (\<lambda>z. cmp z e = 0) (x # as) = filter (\<lambda>z. cmp z e = 0) (x # bs')"
        using Cons.prems(4) bs xy by simp
      then show "filter (\<lambda>z. cmp z e = 0) as = filter (\<lambda>z. cmp z e = 0) bs'"
        by (cases "cmp x e = 0") simp_all
    qed
  qed
  then show ?case using bs xy by simp
qed

lemma stable_sort_perm:
  assumes c: "consistent_comparator cmp" and m: "mset xs = mset ys"
    and t: "\<forall>e \<in> set xs. filter (\<lambda>z. cmp z e = 0) xs = filter (\<lambda>z. cmp z e = 0) ys"
  shows "stable_sort cmp xs = stable_sort cmp ys"
proof (rule sorted_stable_unique[OF c])
  show "sorted_wrt (\<lambda>a b. cmp a b \<le> 0) (stable_sort cmp xs)" by (rule sorted_stable_sort[OF c])
  show "sorted_wrt (\<lambda>a b. cmp a b \<le> 0) (stable_sort cmp ys)" by (rule sorted_stable_sort[OF c])
  show "mset (stable_sort cmp xs) = mset (stable_sort cmp ys)" using m by simp
  show "\<forall>e \<in> set (stable_sort cmp xs).
          filter (\<lambda>z. cmp z e = 0) (stable_sort cmp xs) = filter (\<lambda>z. cmp z e = 0) (stable_sort cmp ys)"
    using t by (simp add: filter_stable_sort[OF c])
qed

lemma consistent_iso_compare: "consistent_comparator iso_compare"
  unfolding consistent_comparator_def iso_compare_def by (auto split: if_splits)

lemma consistent_on_key:
  "consistent_comparator cmp \<Longrightarrow> consistent_comparator (\<lambda>a b. cmp (f a) (f b))"
  unfolding consistent_comparator_def by blast

lemma consistent_compare_steps:
  "consistent_comparator localeCompare \<Longrightarrow> consistent_comparator (compare_steps localeCompare)"
  using consistent_on_key[of localeCompare timestamp] by (simp add: compare_steps_def[abs_def])

section \<open>Event aggregator: what one event does\<close>

lemma find_index_Some:
  "find_index P xs = Some i \<Longrightarrow> i < length xs \<and> P (xs ! i) \<and> (\<forall>j<i. \<not> P (xs ! j))"
proof (induction xs arbitrary: i)
  case Nil
  then show ?case by simp
next
  case (Cons x xs)
  show ?case
  proof (cases "P x")
    case True
    then show ?thesis using Cons.prems by simp
  next
    case False
    then obtain k where k: "find_index P xs = Some k" "i = Suc k"
      using Cons.prems by auto
    from Cons.IH[OF k(1)] False show ?thesis
      by (auto simp: k(2) less_Suc_eq_0_disj)
  qed
qed

lemma resolve_current_simps [simp]:
  "tests (resolve_current s step) = tests s"
  "heap (resolve_current s step) = heap s"
  "stepStack (resolve_current s step) = stepStack s"
  "skippedStepIds (resolve_current s step) = skippedStepIds s"
  "currentTest (resolve_current s step) = testForStep (tests s) step"
  "activeGroup (resolve_current s step)
     = (if currentTest s \<noteq> testForStep (tests s) step then None else activeGroup s)"
  by (simp_all add: resolve_current_def Let_def)

lemma find_lastStep_resolve_current [simp]:
  "find_lastStep (resolve_current s step) step' c = find_lastStep s step' c"
  by (simp add: find_lastStep_def)

lemma process_event_resolved:
  "process_event toTime AFTER_EACH_HOOK firstTimestamp s step = Inr s' \<Longrightarrow>
   \<exists>ti. testForStep (tests s) step = Some ti"
  by (auto simp: process_event_def Let_def split: option.splits)

lemma process_event_unfold:
  "testForStep (tests s) step = Some ti \<Longrightarrow>
   process_event toTime AFTER_EACH_HOOK firstTimestamp s step =
     (case event step of
        StepEnqueue \<Rightarrow> Inr (resolve_current s step)
      | StepStart \<Rightarrow> on_step_start toTime firstTimestamp (resolve_current s step) ti step
      | StepEnd \<Rightarrow> on_step_end toTime AFTER_EACH_HOOK firstTimestamp (resolve_current s step) ti step
      | TestEnd \<Rightarrow> Inr (on_test_end toTime firstTimestamp (resolve_current s step) ti step)
      | TestStart \<Rightarrow> Inr (resolve_current s step))"
  by (simp add: process_event_def Let_def)

lemma on_step_start_skipped:
  "shouldSkipStep step (skippedStepIds s) \<Longrightarrow>
   on_step_start toTime firstTimestamp s ti step
     = Inr (s\<lparr>skippedStepIds := skippedStepIds s @ skip_ids step\<rparr>)"
  by (simp add: on_step_start_def)

lemma on_step_start_created:
  assumes "\<not> shouldSkipStep step (skippedStepIds s)"
    and "on_step_start toTime firstTimestamp s ti step = Inr s'"
  shows "\<exists>c h1 st. command step = Some c
           \<and> h1 = link_assert (heap s) (steps (tests s ! ti)) (cmd_commandId c) (cmd_id c)
           \<and> st = make_step toTime firstTimestamp (tests s ! ti) step c
                    (fst (resolve_parent (activeGroup s) c))
           \<and> s' = s\<lparr>activeGroup := snd (resolve_parent (activeGroup s) c),
                     heap := h1 @ [st],
                     tests := (tests s)[ti := (tests s ! ti)
                                \<lparr>steps := steps (tests s ! ti) @ [length h1]\<rparr>],
                     stepStack := stepStack s @ [(step, length h1)]\<rparr>"
  using assms
  by (auto simp: on_step_start_def Let_def make_step_def split: option.splits prod.splits)

lemma on_step_start_skipped_prefix:
  "on_step_start toTime firstTimestamp s ti step = Inr s' \<Longrightarrow>
   prefix (skippedStepIds s) (skippedStepIds s')"
  by (cases "shouldSkipStep step (skippedStepIds s)")
     (auto simp: on_step_start_skipped dest!: on_step_start_created)

lemma on_step_end_skipped:
  "on_step_end toTime AFTER_EACH_HOOK firstTimestamp s ti step = Inr s' \<Longrightarrow>
   skippedStepIds s' = skippedStepIds s"
  by (auto simp: on_step_end_def Let_def split: option.splits if_splits)

lemma process_event_skipped_prefix:
  assumes "process_event toTime AFTER_EACH_HOOK firstTimestamp s step = Inr s'"
  shows "prefix (skippedStepIds s) (skippedStepIds s')"
proof -
  obtain ti where ti: "testForStep (tests s) step = Some ti"
    using process_event_resolved[OF assms] by blast
  show ?thesis
    using assms on_step_start_skipped_prefix[of toTime firstTimestamp "resolve_current s step" ti step s']
      on_step_end_skipped[of toTime AFTER_EACH_HOOK firstTimestamp "resolve_current s step" ti step s']
    by (cases "event step") (auto simp: process_event_unfold[OF ti] on_test_end_def)
qed

lemma walk_skipped_prefix:
  "walk toTime AFTER_EACH_HOOK firstTimestamp s es = Inr s' \<Longrightarrow>
   prefix (skippedStepIds s) (skippedStepIds s')"
proof (induction es arbitrary: s)
  case Nil
  then show ?case by simp
next
  case (Cons e es)
  then obtain s1 where s1: "process_event toTime AFTER_EACH_HOOK firstTimestamp s e = Inr s1"
      "walk toTime AFTER_EACH_HOOK firstTimestamp s1 es = Inr s'"
    by (auto split: sum.splits)
  from process_event_skipped_prefix[OF s1(1)] Cons.IH[OF s1(2)] show ?case
    by (rule prefix_order.trans)
qed

lemma shouldSkipStep_group:
  "command step = Some c \<Longrightarrow> groupId c = Some g \<Longrightarrow> g \<in> set skipped \<Longrightarrow>
   shouldSkipStep step skipped"
  by (simp add: shouldSkipStep_def)

lemma cleared_then_no_parent:
  assumes "testForStep (tests s) step \<noteq> currentTest s"
  shows "activeGroup (resolve_current s step) = None
       \<and> (event step = StepStart \<longrightarrow>
            process_event toTime AFTER_EACH_HOOK firstTimestamp s step = Inr s' \<longrightarrow>
            (\<forall>(e, a) \<in> set (drop (length (stepStack s)) (stepStack s')).
               parentId (heap s' ! a) = None))"
proof (intro conjI impI)
  show g: "activeGroup (resolve_current s step) = None"
    using assms by auto
  assume ev: "event step = StepStart"
    and pr: "process_event toTime AFTER_EACH_HOOK firstTimestamp s step = Inr s'"
  obtain ti where ti: "testForStep (tests s) step = Some ti"
    using process_event_resolved[OF pr] by blast
  let ?s1 = "resolve_current s step"
  have st: "on_step_start toTime firstTimestamp ?s1 ti step = Inr s'"
    using pr ev by (simp add: process_event_unfold[OF ti])
  show "\<forall>(e, a) \<in> set (drop (length (stepStack s)) (stepStack s')). parentId (heap s' ! a) = None"
  proof (cases "shouldSkipStep step (skippedStepIds ?s1)")
    case True
    then show ?thesis using st by (auto simp: on_step_start_skipped)
  next
    case False
    from on_step_start_created[OF False st] g show ?thesis
      by (auto simp: resolve_parent_def make_step_def)
  qed
qed

lemma link_assert_length [simp]: "length (link_assert h as cid n) = length h"
  by (simp add: link_assert_def split: option.splits)

lemma list_update_field:
  assumes "f x = f (h ! a)"
  shows "f (h[a := x] ! i) = f (h ! i)"
proof (cases "i = a \<and> a < length h")
  case True
  then show ?thesis using assms by simp
next
  case False
  then show ?thesis by (cases "i = a") (simp_all add: list_update_beyond)
qed

lemma link_assert_fields [simp]:
  "parentId (link_assert h as cid n ! i) = parentId (h ! i)"
  "step_id (link_assert h as cid n ! i) = step_id (h ! i)"
  "step_duration (link_assert h as cid n ! i) = step_duration (h ! i)"
  by (auto simp: link_assert_def list_update_field split: option.splits)

lemma end_step_fields [simp]:
  "parentId (end_step toTime ft cur step c st) = parentId st"
  "step_id (end_step toTime ft cur step c st) = step_id st"
  "\<exists>d\<ge>0. step_duration (end_step toTime ft cur step c st) = Some d"
  by (simp_all add: end_step_def Let_def)

lemma make_step_fields [simp]:
  "parentId (make_step toTime ft cur step c p) = p"
  "step_id (make_step toTime ft cur step c p) = cmd_id c"
  "step_duration (make_step toTime ft cur step c p) = None"
  by (simp_all add: make_step_def)

lemma testForStep_titles:
  "map title ts' = map title ts \<Longrightarrow> testForStep ts' e = testForStep ts e"
proof (induction ts arbitrary: ts')
  case Nil
  then show ?case by (simp add: testForStep_def)
next
  case (Cons t ts)
  then obtain t' ts1 where "ts' = t' # ts1" "title t' = title t" "map title ts1 = map title ts"
    by (cases ts') auto
  then show ?case using Cons.IH[of ts1] by (simp add: testForStep_def)
qed

lemma testForStep_bound: "testForStep ts e = Some ti \<Longrightarrow> ti < length ts"
  unfolding testForStep_def by (drule find_index_Some) simp

lemma map_title_update_steps [simp]:
  "map title (ts[i := (ts ! i)\<lparr>steps := x\<rparr>]) = map title ts"
  "map title (ts[i := (ts ! i)\<lparr>duration := y\<rparr>]) = map title ts"
  by (cases "i < length ts"; simp add: map_update list_update_same_conv list_update_beyond)+

lemma map_path_update [simp]:
  "map path (ts[i := (ts ! i)\<lparr>steps := x\<rparr>]) = map path ts"
  "map path (ts[i := (ts ! i)\<lparr>duration := y\<rparr>]) = map path ts"
  by (cases "i < length ts"; simp add: map_update list_update_same_conv list_update_beyond)+

lemma map_steps_update_duration [simp]:
  "map steps (ts[i := (ts ! i)\<lparr>duration := y\<rparr>]) = map steps ts"
  by (cases "i < length ts") (simp_all add: map_update list_update_same_conv list_update_beyond)

lemma end_step_duration_update:
  "step_duration (h[a := end_step toTime ft cur step c (h ! a)] ! i) = step_duration (h ! i)
   \<or> (\<exists>d\<ge>0. step_duration (h[a := end_step toTime ft cur step c (h ! a)] ! i) = Some d)"
proof (cases "i = a \<and> a < length h")
  case True
  then show ?thesis using end_step_fields(3)[of toTime ft cur step c "h ! a"] by simp
next
  case False
  then show ?thesis by (cases "i = a") (simp_all add: list_update_beyond)
qed

lemma process_event_cases:
  assumes "process_event toTime AFTER_EACH_HOOK firstTimestamp s step = Inr s'"
  obtains
    (keep) "stepStack s' = stepStack s" and "map steps (tests s') = map steps (tests s)"
      and "map title (tests s') = map title (tests s)"
      and "map path (tests s') = map path (tests s)"
      and "length (heap s') = length (heap s)"
      and "\<And>i. parentId (heap s' ! i) = parentId (heap s ! i)"
      and "\<And>i. step_id (heap s' ! i) = step_id (heap s ! i)"
      and "\<And>i. step_duration (heap s' ! i) = step_duration (heap s ! i)
                \<or> (\<exists>d\<ge>0. step_duration (heap s' ! i) = Some d)"
      and "activeGroup s' = activeGroup (resolve_current s step)"
      and "currentTest s' = testForStep (tests s) step"
  | (create) ti c where "event step = StepStart" and "command step = Some c"
      and "testForStep (tests s) step = Some ti"
      and "stepStack s' = stepStack s @ [(step, length (heap s))]"
      and "tests s' = (tests s)[ti := (tests s ! ti)
                         \<lparr>steps := steps (tests s ! ti) @ [length (heap s)]\<rparr>]"
      and "length (heap s') = Suc (length (heap s))"
      and "\<And>i. i < length (heap s) \<Longrightarrow> parentId (heap s' ! i) = parentId (heap s ! i)"
      and "\<And>i. i < length (heap s) \<Longrightarrow> step_id (heap s' ! i) = step_id (heap s ! i)"
      and "\<And>i. i < length (heap s) \<Longrightarrow> step_duration (heap s' ! i) = step_duration (heap s ! i)"
      and "parentId (heap s' ! length (heap s))
             = fst (resolve_parent (activeGroup (resolve_current s step)) c)"
      and "step_id (heap s' ! length (heap s)) = cmd_id c"
      and "step_duration (heap s' ! length (heap s)) = None"
      and "activeGroup s' = snd (resolve_parent (activeGroup (resolve_current s step)) c)"
      and "currentTest s' = Some ti"
proof -
  obtain ti where ti: "testForStep (tests s) step = Some ti"
    using process_event_resolved[OF assms] by blast
  let ?s1 = "resolve_current s step"
  note pe = assms[unfolded process_event_unfold[OF ti]]
  show thesis
  proof (cases "event step")
    case StepEnqueue
    then have "s' = ?s1" using pe by simp
    then show thesis using ti by (intro keep) simp_all
  next
    case TestStart
    then have "s' = ?s1" using pe by simp
    then show thesis using ti by (intro keep) simp_all
  next
    case TestEnd
    then have "s' = on_test_end toTime firstTimestamp ?s1 ti step" using pe by simp
    then show thesis using ti by (intro keep) (simp_all add: on_test_end_def)
  next
    case StepEnd
    then have oe: "on_step_end toTime AFTER_EACH_HOOK firstTimestamp ?s1 ti step = Inr s'"
      using pe by simp
    then obtain c where c: "command step = Some c"
      by (auto simp: on_step_end_def split: option.splits)
    show thesis
    proof (cases "s' = ?s1")
      case True
      then show thesis using ti by (intro keep) simp_all
    next
      case False
      then obtain e a where
        "s' = ?s1\<lparr>heap := (heap s)[a :=
                end_step toTime firstTimestamp (tests s ! ti) step c (heap s ! a)]\<rparr>"
        using oe c by (auto simp: on_step_end_def Let_def split: option.splits if_splits)
      then show thesis
        using ti by (intro keep) (simp_all add: list_update_field end_step_duration_update)
    qed
  next
    case StepStart
    then have os: "on_step_start toTime firstTimestamp ?s1 ti step = Inr s'"
      using pe by simp
    show thesis
    proof (cases "shouldSkipStep step (skippedStepIds ?s1)")
      case True
      then have "s' = ?s1\<lparr>skippedStepIds := skippedStepIds s @ skip_ids step\<rparr>"
        using os by (simp add: on_step_start_skipped)
      then show thesis using ti by (intro keep) simp_all
    next
      case False
      from on_step_start_created[OF False os] obtain c where
        c: "command step = Some c" and
        s': "s' = ?s1\<lparr>activeGroup := snd (resolve_parent (activeGroup ?s1) c),
                     heap := link_assert (heap s) (steps (tests s ! ti)) (cmd_commandId c) (cmd_id c)
                       @ [make_step toTime firstTimestamp (tests s ! ti) step c
                            (fst (resolve_parent (activeGroup ?s1) c))],
                     tests := (tests s)[ti := (tests s ! ti)
                                \<lparr>steps := steps (tests s ! ti) @ [length (heap s)]\<rparr>],
                     stepStack := stepStack s @ [(step, length (heap s))]\<rparr>"
        by auto
      show thesis
        using StepStart c ti by (intro create[of c ti]) (simp_all add: s' nth_append)
    qed
  qed
qed

lemma walk_invariant:
  assumes step: "\<And>s step s'. I s \<Longrightarrow>
      process_event toTime AFTER_EACH_HOOK firstTimestamp s step = Inr s' \<Longrightarrow> I s'"
  shows "I s \<Longrightarrow> walk toTime AFTER_EACH_HOOK firstTimestamp s es = Inr s' \<Longrightarrow> I s'"
proof (induction es arbitrary: s)
  case Nil
  then show ?case by simp
next
  case (Cons e es)
  then obtain s1 where s1: "process_event toTime AFTER_EACH_HOOK firstTimestamp s e = Inr s1"
      "walk toTime AFTER_EACH_HOOK firstTimestamp s1 es = Inr s'"
    by (auto split: sum.splits)
  show ?case
    using Cons.IH[OF step[OF Cons.prems(1) s1(1)] s1(2)] .
qed

lemma process_event_titles:
  assumes "process_event toTime AFTER_EACH_HOOK firstTimestamp s step = Inr s'"
  shows "map title (tests s') = map title (tests s)"
  using assms by (cases rule: process_event_cases) simp_all

lemma process_event_testForStep:
  assumes "process_event toTime AFTER_EACH_HOOK firstTimestamp s step = Inr s'"
  shows "testForStep (tests s') e = testForStep (tests s) e"
  using process_event_titles[OF assms] by (rule testForStep_titles)

lemma process_event_stack_grows:
  assumes "process_event toTime AFTER_EACH_HOOK firstTimestamp s step = Inr s'"
  shows "set (stepStack s) \<subseteq> set (stepStack s')"
  using assms by (cases rule: process_event_cases) auto

lemma opener_mono:
  assumes "process_event toTime AFTER_EACH_HOOK firstTimestamp s step = Inr s'"
    and "opener s g p t"
  shows "opener s' g p t"
  using assms(2) process_event_stack_grows[OF assms(1)]
  unfolding opener_def process_event_testForStep[OF assms(1)] by blast

lemma addrs_ok_step:
  assumes pe: "process_event toTime AFTER_EACH_HOOK firstTimestamp s step = Inr s'"
    and inv: "addrs_ok s"
  shows "addrs_ok s'"
  using pe
proof (cases rule: process_event_cases)
  case keep
  then show ?thesis using inv by (simp add: addrs_ok_def)
next
  case (create ti c)
  have "xs \<in> set (map steps (tests s')) \<Longrightarrow> a \<in> set xs \<Longrightarrow> a < length (heap s')" for xs a
  proof -
    assume "xs \<in> set (map steps (tests s'))" "a \<in> set xs"
    then obtain t where t: "t \<in> set (tests s')" "a \<in> set (steps t)" by auto
    then have "t \<in> set (tests s) \<or> t = (tests s ! ti)\<lparr>steps := steps (tests s ! ti) @ [length (heap s)]\<rparr>"
      using create(5) set_update_subset_insert[of "tests s" ti] by auto
    moreover have "tests s ! ti \<in> set (tests s)"
      using testForStep_bound[OF create(3)] by simp
    ultimately have "a < length (heap s) \<or> a = length (heap s)"
      using inv t(2) unfolding addrs_ok_def by auto
    then show ?thesis using create(6) by auto
  qed
  moreover have "\<forall>(e, a) \<in> set (stepStack s'). a < length (heap s')"
    using inv create(4,6) unfolding addrs_ok_def by auto
  ultimately show ?thesis unfolding addrs_ok_def by blast
qed

lemma map_eq_nth:
  assumes "map f xs = map f ys"
  shows "length xs = length ys" and "j < length ys \<Longrightarrow> f (xs ! j) = f (ys ! j)"
proof -
  show l: "length xs = length ys" using assms by (rule map_eq_imp_length_eq)
  show "f (xs ! j) = f (ys ! j)" if "j < length ys"
    using that l nth_map[of j xs f] nth_map[of j ys f] assms by simp
qed

lemma attached_step:
  assumes pe: "process_event toTime AFTER_EACH_HOOK firstTimestamp s step = Inr s'"
    and ok: "addrs_ok s" and inv: "attached s"
  shows "attached s'"
  using pe
proof (cases rule: process_event_cases)
  case keep
  note tf = process_event_testForStep[OF pe]
  have len: "length (tests s') = length (tests s)"
    and st: "\<And>j. j < length (tests s) \<Longrightarrow> steps (tests s' ! j) = steps (tests s ! j)"
    using map_eq_nth[OF keep(2)] by auto
  show ?thesis
    unfolding attached_def keep(1) tf len
  proof (clarify)
    fix e a assume ea: "(e, a) \<in> set (stepStack s)"
    then obtain ti where ti: "testForStep (tests s) e = Some ti"
        "a \<in> set (steps (tests s ! ti))"
        "\<forall>j \<in> {..<length (tests s)}. j \<noteq> ti \<longrightarrow> a \<notin> set (steps (tests s ! j))"
      using inv unfolding attached_def by (fastforce split: option.splits)
    have "ti < length (tests s)" using ti(1) by (rule testForStep_bound)
    then show "case testForStep (tests s) e of None \<Rightarrow> False
        | Some ti \<Rightarrow> a \<in> set (steps (tests s' ! ti))
            \<and> (\<forall>j \<in> {..<length (tests s)}. j \<noteq> ti \<longrightarrow> a \<notin> set (steps (tests s' ! j)))"
      using ti st by simp
  qed
next
  case (create ti c)
  note tf = process_event_testForStep[OF pe]
  have tib: "ti < length (tests s)" using create(3) by (rule testForStep_bound)
  have len: "length (tests s') = length (tests s)" using create(5) by simp
  have st: "steps (tests s' ! j)
      = (if j = ti then steps (tests s ! ti) @ [length (heap s)] else steps (tests s ! j))"
    if "j < length (tests s)" for j
    using that create(5) by (simp add: nth_list_update)
  show ?thesis
    unfolding attached_def tf len create(4)
  proof (clarify)
    fix e a assume "(e, a) \<in> set (stepStack s @ [(step, length (heap s))])"
    then consider (old) "(e, a) \<in> set (stepStack s)" | (new) "e = step" "a = length (heap s)"
      by auto
    then show "case testForStep (tests s) e of None \<Rightarrow> False
        | Some ti \<Rightarrow> a \<in> set (steps (tests s' ! ti))
            \<and> (\<forall>j \<in> {..<length (tests s)}. j \<noteq> ti \<longrightarrow> a \<notin> set (steps (tests s' ! j)))"
    proof cases
      case old
      then obtain tj where tj: "testForStep (tests s) e = Some tj"
          "a \<in> set (steps (tests s ! tj))"
          "\<forall>j \<in> {..<length (tests s)}. j \<noteq> tj \<longrightarrow> a \<notin> set (steps (tests s ! j))"
        using inv unfolding attached_def by (fastforce split: option.splits)
      have tjb: "tj < length (tests s)" using tj(1) by (rule testForStep_bound)
      have "a < length (heap s)" using ok old unfolding addrs_ok_def by auto
      then show ?thesis using tj tjb st by auto
    next
      case new
      have "length (heap s) \<notin> set (steps (tests s ! j))" if "j < length (tests s)" for j
      proof
        assume "length (heap s) \<in> set (steps (tests s ! j))"
        moreover have "steps (tests s ! j) \<in> set (map steps (tests s))" using that by simp
        ultimately have "length (heap s) < length (heap s)"
          using ok unfolding addrs_ok_def by blast
        then show False by simp
      qed
      then show ?thesis using new create(3) tib st by auto
    qed
  qed
qed

lemma dur_inv_step:
  assumes pe: "process_event toTime AFTER_EACH_HOOK firstTimestamp s step = Inr s'"
    and inv: "dur_inv s"
  shows "dur_inv s'"
  using pe
proof (cases rule: process_event_cases)
  case keep
  show ?thesis
    unfolding dur_inv_def keep(5)
  proof
    fix i assume i: "i \<in> {..<length (heap s)}"
    then have "case step_duration (heap s ! i) of None \<Rightarrow> True | Some d \<Rightarrow> 0 \<le> d"
      using inv unfolding dur_inv_def by blast
    then show "case step_duration (heap s' ! i) of None \<Rightarrow> True | Some d \<Rightarrow> 0 \<le> d"
      using keep(8)[of i] by auto
  qed
next
  case (create ti c)
  show ?thesis
    unfolding dur_inv_def create(6)
  proof
    fix i assume "i \<in> {..<Suc (length (heap s))}"
    then consider "i < length (heap s)" | "i = length (heap s)" by fastforce
    then show "case step_duration (heap s' ! i) of None \<Rightarrow> True | Some d \<Rightarrow> 0 \<le> d"
    proof cases
      case 1
      then have "case step_duration (heap s ! i) of None \<Rightarrow> True | Some d \<Rightarrow> 0 \<le> d"
        using inv unfolding dur_inv_def by blast
      then show ?thesis using create(9)[OF 1] by simp
    next
      case 2
      then show ?thesis using create(12) by simp
    qed
  qed
qed

lemma group_inv_step:
  assumes pe: "process_event toTime AFTER_EACH_HOOK firstTimestamp s step = Inr s'"
    and inv: "group_inv s"
  shows "group_inv s'"
proof -
  have base: "opener s' g p (testForStep (tests s) step)"
    if "activeGroup (resolve_current s step) = Some (g, p)" for g p
  proof -
    from that have "currentTest s = testForStep (tests s) step" "activeGroup s = Some (g, p)"
      by (auto split: if_splits)
    then have "opener s g p (testForStep (tests s) step)"
      using inv unfolding group_inv_def by simp
    then show ?thesis using opener_mono[OF pe] by blast
  qed
  from pe show ?thesis
  proof (cases rule: process_event_cases)
    case keep
    then show ?thesis using base unfolding group_inv_def by (auto split: option.splits)
  next
    case (create ti c)
    show ?thesis
    proof (cases "activeGroup s'")
      case None
      then show ?thesis by (simp add: group_inv_def)
    next
      case (Some gp)
      obtain g p where gp: "gp = (g, p)" by (cases gp)
      have "opener s' g p (Some ti)"
      proof (cases "activeGroup (resolve_current s step) = Some (g, p)")
        case True
        then show ?thesis using base create(3) by simp
      next
        case False
        then have "groupId c = Some g" "p = cmd_id c"
          using create(13) Some gp
          by (auto simp: resolve_parent_def split: if_splits option.splits)
        then show ?thesis
          unfolding opener_def create(4) process_event_testForStep[OF pe]
          using create(2,3) by auto
      qed
      then show ?thesis using Some gp create(14) by (simp add: group_inv_def)
    qed
  qed
qed

lemma parent_inv_step:
  assumes pe: "process_event toTime AFTER_EACH_HOOK firstTimestamp s step = Inr s'"
    and ok: "addrs_ok s" and ginv: "group_inv s" and inv: "parent_inv s"
  shows "parent_inv s'"
proof -
  note tf = process_event_testForStep[OF pe]
  have olds: "case parentId (heap s ! a) of None \<Rightarrow> True
      | Some p \<Rightarrow> (case command e of None \<Rightarrow> False
          | Some c \<Rightarrow> (case groupId c of None \<Rightarrow> False
              | Some g \<Rightarrow> opener s' g p (testForStep (tests s) e)))"
    if "(e, a) \<in> set (stepStack s)" for e a
  proof -
    have "case parentId (heap s ! a) of None \<Rightarrow> True
      | Some p \<Rightarrow> (case command e of None \<Rightarrow> False
          | Some c \<Rightarrow> (case groupId c of None \<Rightarrow> False
              | Some g \<Rightarrow> opener s g p (testForStep (tests s) e)))"
      using inv that unfolding parent_inv_def by blast
    then show ?thesis
      using opener_mono[OF pe] by (auto split: option.splits)
  qed
  from pe show ?thesis
  proof (cases rule: process_event_cases)
    case keep
    show ?thesis
      unfolding parent_inv_def tf keep(1) keep(6)
      using olds by blast
  next
    case (create ti c)
    show ?thesis
      unfolding parent_inv_def tf create(4)
    proof (clarify)
      fix e a assume "(e, a) \<in> set (stepStack s @ [(step, length (heap s))])"
      then consider (old) "(e, a) \<in> set (stepStack s)" | (new) "e = step" "a = length (heap s)"
        by auto
      then show "case parentId (heap s' ! a) of None \<Rightarrow> True
        | Some p \<Rightarrow> (case command e of None \<Rightarrow> False
            | Some c \<Rightarrow> (case groupId c of None \<Rightarrow> False
                | Some g \<Rightarrow> opener s' g p (testForStep (tests s) e)))"
      proof cases
        case old
        then have "a < length (heap s)" using ok unfolding addrs_ok_def by auto
        then show ?thesis using olds[OF old] create(7) by simp
      next
        case new
        show ?thesis
        proof (cases "fst (resolve_parent (activeGroup (resolve_current s step)) c)")
          case None
          then show ?thesis using new create(10) by simp
        next
          case (Some p)
          then obtain g where g: "activeGroup (resolve_current s step) = Some (g, p)"
              "groupId c = Some g"
            by (auto simp: resolve_parent_def split: if_splits option.splits)
          then have "currentTest s = testForStep (tests s) step" "activeGroup s = Some (g, p)"
            by (auto split: if_splits)
          then have "opener s g p (testForStep (tests s) step)"
            using ginv unfolding group_inv_def by simp
          then have "opener s' g p (testForStep (tests s) step)"
            using opener_mono[OF pe] by blast
          then show ?thesis using new create(2,10) Some g(2) by simp
        qed
      qed
    qed
  qed
qed

lemma agg_inv_initial: "agg_inv (initial_state toTime firstTimestamp sortedSteps)"
  by (simp add: agg_inv_def addrs_ok_def attached_def group_inv_def parent_inv_def dur_inv_def
      initial_state_def make_test_def)

lemma agg_inv_step:
  assumes inv: "agg_inv s"
    and pe: "process_event toTime AFTER_EACH_HOOK firstTimestamp s step = Inr s'"
  shows "agg_inv s'"
proof -
  have i: "addrs_ok s" "attached s" "group_inv s" "parent_inv s" "dur_inv s"
    using inv by (simp_all add: agg_inv_def)
  show ?thesis
    unfolding agg_inv_def
    using addrs_ok_step[OF pe i(1)] attached_step[OF pe i(1,2)] group_inv_step[OF pe i(3)]
      parent_inv_step[OF pe i(1,3,4)] dur_inv_step[OF pe i(5)]
    by simp
qed

lemma agg_inv_aggregate:
  assumes "aggregate toTime localeCompare AFTER_EACH_HOOK events firstTimestamp = Inr s"
  shows "agg_inv s"
proof -
  have w: "walk toTime AFTER_EACH_HOOK firstTimestamp
             (initial_state toTime firstTimestamp (stable_sort (compare_steps localeCompare) events))
             (stable_sort (compare_steps localeCompare) events) = Inr s"
    using assms by (simp add: aggregate_def Let_def)
  show ?thesis
  proof (rule walk_invariant[where I = agg_inv, OF _ _ w])
    show "agg_inv (initial_state toTime firstTimestamp (stable_sort (compare_steps localeCompare) events))"
      by (rule agg_inv_initial)
  qed (rule agg_inv_step)
qed

lemma process_event_paths:
  assumes "process_event toTime AFTER_EACH_HOOK firstTimestamp s step = Inr s'"
  shows "map path (tests s') = map path (tests s)"
  using assms by (cases rule: process_event_cases) simp_all

lemma walk_paths:
  "walk toTime AFTER_EACH_HOOK firstTimestamp s es = Inr s' \<Longrightarrow>
   map path (tests s') = map path (tests s)"
proof -
  assume w: "walk toTime AFTER_EACH_HOOK firstTimestamp s es = Inr s'"
  show ?thesis
  proof (rule walk_invariant[where I = "\<lambda>x. map path (tests x) = map path (tests s)", OF _ _ w])
    show "map path (tests s) = map path (tests s)" by simp
  qed (simp add: process_event_paths)
qed

lemma initial_paths:
  "map path (tests (initial_state toTime firstTimestamp sortedSteps))
     = map test (filter (\<lambda>a. event a = TestStart) sortedSteps)"
  by (simp add: initial_state_def make_test_def comp_def)

lemma parent_same_test:
  assumes "aggregate toTime localeCompare AFTER_EACH_HOOK events firstTimestamp = Inr s"
    and "(e, a) \<in> set (stepStack s)" and "parentId (heap s ! a) = Some p"
  shows "\<exists>(e', a') \<in> set (stepStack s). \<exists>c c' g.
           command e = Some c \<and> groupId c = Some g
           \<and> command e' = Some c' \<and> groupId c' = Some g \<and> cmd_id c' = p
           \<and> testForStep (tests s) e' = testForStep (tests s) e"
proof -
  have "parent_inv s" using agg_inv_aggregate[OF assms(1)] by (simp add: agg_inv_def)
  then obtain c g where c: "command e = Some c" "groupId c = Some g"
      "opener s g p (testForStep (tests s) e)"
    using assms(2,3) unfolding parent_inv_def by (fastforce split: option.splits)
  then show ?thesis
    unfolding opener_def by (fastforce split: option.splits)
qed

section \<open>Event aggregator: the claims\<close>

subsection \<open>Order of arrival\<close>

text \<open>
  C1 (as amended): two arrival orders of the same events give the same result, tests,
  steps and errors alike, when they list in the same relative order the events whose
  timestamps tie under \<^verbatim>\<open>localeCompare\<close>; in particular when no two timestamps tie. The
  sort is stable, so tied events keep their arrival order. \<^verbatim>\<open>localeCompare\<close> is taken to
  be a consistent comparator.
\<close>

theorem order_independence_up_to_ties:
  assumes "consistent_comparator localeCompare" and "mset xs = mset ys"
    and "\<forall>e \<in> set xs.
           filter (\<lambda>z. localeCompare (timestamp z) (timestamp e) = 0) xs
             = filter (\<lambda>z. localeCompare (timestamp z) (timestamp e) = 0) ys"
  shows "groupStepsByTest toTime localeCompare AFTER_EACH_HOOK xs firstTimestamp
           = groupStepsByTest toTime localeCompare AFTER_EACH_HOOK ys firstTimestamp"
proof -
  have "stable_sort (compare_steps localeCompare) xs = stable_sort (compare_steps localeCompare) ys"
    using assms(3)
    by (intro stable_sort_perm consistent_compare_steps assms(1,2)) (simp add: compare_steps_def)
  moreover have "xs = [] \<longleftrightarrow> ys = []"
    using assms(2) by (metis mset_zero_iff)
  ultimately show ?thesis
    by (simp add: groupStepsByTest_def aggregate_def)
qed

text \<open>
  A \<^verbatim>\<open>step:start\<close> and its \<^verbatim>\<open>step:end\<close> in the same millisecond, listed in this order
  in both arrival orders, while the \<^verbatim>\<open>test:start\<close> and the \<^verbatim>\<open>test:end\<close> change places.
\<close>

theorem order_independence_witness:
  "compare_steps iso_compare get_start (get_end\<lparr>timestamp := timestamp get_start\<rparr>) = 0
   \<and> mset [works_start, get_start, get_end\<lparr>timestamp := timestamp get_start\<rparr>, works_end]
       = mset [works_end, get_start, get_end\<lparr>timestamp := timestamp get_start\<rparr>, works_start]
   \<and> groupStepsByTest isoTime iso_compare after_each_marker
        [works_start, get_start, get_end\<lparr>timestamp := timestamp get_start\<rparr>, works_end] 0
     = groupStepsByTest isoTime iso_compare after_each_marker
        [works_end, get_start, get_end\<lparr>timestamp := timestamp get_start\<rparr>, works_start] 0"
proof -
  let ?xs = "[works_start, get_start, get_end\<lparr>timestamp := timestamp get_start\<rparr>, works_end]"
  let ?ys = "[works_end, get_start, get_end\<lparr>timestamp := timestamp get_start\<rparr>, works_start]"
  have m: "mset ?xs = mset ?ys" by simp
  have t: "\<forall>e \<in> set ?xs.
           filter (\<lambda>z. iso_compare (timestamp z) (timestamp e) = 0) ?xs
             = filter (\<lambda>z. iso_compare (timestamp z) (timestamp e) = 0) ?ys"
    by code_simp
  have z: "compare_steps iso_compare get_start (get_end\<lparr>timestamp := timestamp get_start\<rparr>) = 0"
    by code_simp
  from order_independence_up_to_ties[OF consistent_iso_compare m t, of isoTime after_each_marker 0]
    m z show ?thesis by simp
qed

text \<open>
  The same two events with the end listed before the start: in one arrival order the
  step is reconstructed, in the other the end is met first and the aggregation fails.
\<close>

theorem order_dependence_on_ties:
  "mset [works_start, get_start, get_end\<lparr>timestamp := timestamp get_start\<rparr>]
     = mset [works_start, get_end\<lparr>timestamp := timestamp get_start\<rparr>, get_start]
   \<and> groupStepsByTest isoTime iso_compare after_each_marker
        [works_start, get_start, get_end\<lparr>timestamp := timestamp get_start\<rparr>] 0
     \<noteq> groupStepsByTest isoTime iso_compare after_each_marker
        [works_start, get_end\<lparr>timestamp := timestamp get_start\<rparr>, get_start] 0"
proof -
  have "groupStepsByTest isoTime iso_compare after_each_marker
        [works_start, get_end\<lparr>timestamp := timestamp get_start\<rparr>, get_start] 0
      = Inl (MismatchedStep (get_end\<lparr>timestamp := timestamp get_start\<rparr>) None)"
    by code_simp
  moreover have "groupStepsByTest isoTime iso_compare after_each_marker
        [works_start, get_start, get_end\<lparr>timestamp := timestamp get_start\<rparr>] 0
      = Inr [\<lparr>title = ''works'', path = [''suite'', ''works''], result = Passed,
              relativePath = ''spec.cy.ts'', relativeStartTime = 0,
              steps = [\<lparr>step_id = ''a'', parentId = None, step_name = ''get'',
                         args = [JStr ''button''], commandId = None,
                         step_relativeStartTime = 5, category = Other, hook = None,
                         step_duration = Some 0, error = None, assertIds = None\<rparr>],
              duration = None\<rparr>]"
    by code_simp
  ultimately show ?thesis by simp
qed

subsection \<open>Durations\<close>

text \<open>
  The duration of a step is clamped by \<^verbatim>\<open>Math.max(0, ...)\<close>: no step of the result has
  a negative duration, whatever the timestamps are.
\<close>

lemma step_durations_nonneg:
  assumes "groupStepsByTest toTime localeCompare AFTER_EACH_HOOK events firstTimestamp = Inr ts"
    and "t \<in> set ts" and "st \<in> set (steps t)" and "step_duration st = Some d"
  shows "0 \<le> d"
proof (cases "events = []")
  case True
  then show ?thesis using assms by (simp add: groupStepsByTest_def)
next
  case False
  then obtain s where s: "aggregate toTime localeCompare AFTER_EACH_HOOK events firstTimestamp = Inr s"
      "ts = map (resolve_steps (heap s)) (tests s)"
    using assms(1) by (auto simp: groupStepsByTest_def split: sum.splits)
  have inv: "addrs_ok s" "dur_inv s"
    using agg_inv_aggregate[OF s(1)] by (simp_all add: agg_inv_def)
  obtain t0 where t0: "t0 \<in> set (tests s)" "t = resolve_steps (heap s) t0"
    using assms(2) s(2) by auto
  then obtain a where a: "a \<in> set (steps t0)" "st = heap s ! a"
    using assms(3) by (auto simp: resolve_steps_def)
  have "a < length (heap s)"
    using inv(1) t0(1) a(1) unfolding addrs_ok_def by auto
  then have "case step_duration (heap s ! a) of None \<Rightarrow> True | Some x \<Rightarrow> 0 \<le> x"
    using inv(2) unfolding dur_inv_def by simp
  then show ?thesis
    using a(2) assms(4) by simp
qed

text \<open>
  C2: the duration of a test is not clamped. A \<^verbatim>\<open>test:end\<close> stamped 5 ms before its
  \<^verbatim>\<open>test:start\<close> yields a test of duration -5, however \<^verbatim>\<open>localeCompare\<close> orders the two
  timestamps.
\<close>

theorem test_duration_negative:
  "groupStepsByTest isoTime localeCompare after_each_marker
     [mk_event TestStart ''1970-01-01T00:00:00.010Z'' [''suite'', ''works''] None,
      mk_event TestEnd ''1970-01-01T00:00:00.005Z'' [''suite'', ''works''] None] 0
   = Inr [\<lparr>title = ''works'', path = [''suite'', ''works''], result = Passed,
           relativePath = ''spec.cy.ts'', relativeStartTime = 10, steps = [],
           duration = Some (- 5)\<rparr>]"
proof -
  let ?a = "mk_event TestStart ''1970-01-01T00:00:00.010Z'' [''suite'', ''works''] None"
  let ?b = "mk_event TestEnd ''1970-01-01T00:00:00.005Z'' [''suite'', ''works''] None"
  let ?out = "Inr [\<lparr>title = ''works'', path = [''suite'', ''works''], result = Passed,
           relativePath = ''spec.cy.ts'', relativeStartTime = 10, steps = [],
           duration = Some (- 5)\<rparr>] :: agg_error + TestStep Test list"
  have ab: "(case walk isoTime after_each_marker 0 (initial_state isoTime 0 [?a, ?b]) [?a, ?b] of
              Inl err \<Rightarrow> Inl err
            | Inr s \<Rightarrow> Inr (map (resolve_steps (heap s)) (tests s))) = ?out"
    by code_simp
  have ba: "(case walk isoTime after_each_marker 0 (initial_state isoTime 0 [?b, ?a]) [?b, ?a] of
              Inl err \<Rightarrow> Inl err
            | Inr s \<Rightarrow> Inr (map (resolve_steps (heap s)) (tests s))) = ?out"
    by code_simp
  have "stable_sort (compare_steps localeCompare) [?a, ?b] = [?a, ?b]
      \<or> stable_sort (compare_steps localeCompare) [?a, ?b] = [?b, ?a]"
    by (simp add: stable_sort_def)
  then show ?thesis
  proof
    assume "stable_sort (compare_steps localeCompare) [?a, ?b] = [?a, ?b]"
    then show ?thesis using ab by (simp add: groupStepsByTest_def aggregate_def)
  next
    assume "stable_sort (compare_steps localeCompare) [?a, ?b] = [?b, ?a]"
    then show ?thesis using ba by (simp add: groupStepsByTest_def aggregate_def)
  qed
qed

subsection \<open>End events without a started step\<close>

text \<open>
  C6 (as amended): a \<^verbatim>\<open>step:end\<close> whose test resolves and that matches no in-progress
  step is ignored when its command id is in the skipped ids; otherwise it is dropped
  without an error when its test path starts with the after-each marker, and only in the
  remaining case the aggregator throws the mismatched-step error.
\<close>

theorem step_end_without_match:
  assumes "event step = StepEnd" and "command step = Some c"
    and "testForStep (tests s) step = Some ti"
    and "find_lastStep s step c = None"
  shows "process_event toTime AFTER_EACH_HOOK firstTimestamp s step =
           (if cmd_id c \<in> set (skippedStepIds s) then Inr (resolve_current s step)
            else if is_after_each AFTER_EACH_HOOK step then Inr (resolve_current s step)
            else Inl (MismatchedStep step None))"
  using assms
  by (simp add: process_event_unfold on_step_end_def assertMatchingStep_def)

theorem step_end_without_match_witness:
  "process_event isoTime after_each_marker 0 (state_after [works_start]) get_end
     = Inl (MismatchedStep get_end None)"
proof -
  have h: "event get_end = StepEnd"
    "command get_end = Some (mk_command ''a'' ''get'' [JStr ''button''])"
    "testForStep (tests (state_after [works_start])) get_end = Some 0"
    "find_lastStep (state_after [works_start]) get_end
       (mk_command ''a'' ''get'' [JStr ''button'']) = None"
    by code_simp+
  have n: "cmd_id (mk_command ''a'' ''get'' [JStr ''button''])
             \<notin> set (skippedStepIds (state_after [works_start]))"
    "\<not> is_after_each after_each_marker get_end"
    by code_simp+
  from step_end_without_match[OF h, of isoTime after_each_marker 0] n show ?thesis by simp
qed

text \<open>
  An end event of an after-each hook with no started step and an id that was never
  skipped: the aggregation succeeds and the event leaves no trace.
\<close>

theorem after_each_end_dropped:
  "groupStepsByTest isoTime iso_compare after_each_marker
     [mk_event TestStart ''1970-01-01T00:00:00.000Z'' [after_each_marker, ''works''] None,
      mk_event StepEnd ''1970-01-01T00:00:00.005Z'' [after_each_marker, ''works'']
        (Some (mk_command ''a'' ''get'' [JStr ''button'']))] 0
   = Inr [\<lparr>title = ''works'', path = [after_each_marker, ''works''], result = Passed,
           relativePath = ''spec.cy.ts'', relativeStartTime = 0, steps = [],
           duration = None\<rparr>]"
  by code_simp

subsection \<open>Skipped steps\<close>

text \<open>
  C7: the skipped ids only grow (the list before any stretch of events is a prefix of
  the list after it), and once a group id is in the list, a \<^verbatim>\<open>step:start\<close> carrying
  that group id, now or after any number of further events, creates no step: the store,
  the tests and the step stack are left as they were.
\<close>

theorem skip_propagation:
  assumes "g \<in> set (skippedStepIds s)"
    and "walk toTime AFTER_EACH_HOOK firstTimestamp s es = Inr s1"
    and "event step = StepStart" and "command step = Some c" and "groupId c = Some g"
    and "process_event toTime AFTER_EACH_HOOK firstTimestamp s1 step = Inr s2"
  shows "prefix (skippedStepIds s) (skippedStepIds s1)
       \<and> prefix (skippedStepIds s1) (skippedStepIds s2)
       \<and> heap s2 = heap s1 \<and> tests s2 = tests s1 \<and> stepStack s2 = stepStack s1"
proof -
  have p: "prefix (skippedStepIds s) (skippedStepIds s1)"
    using assms(2) by (rule walk_skipped_prefix)
  then have "g \<in> set (skippedStepIds s1)"
    using assms(1) set_mono_prefix by blast
  then have skip: "shouldSkipStep step (skippedStepIds (resolve_current s1 step))"
    using assms(4,5) by (simp add: shouldSkipStep_group)
  obtain ti where ti: "testForStep (tests s1) step = Some ti"
    using process_event_resolved[OF assms(6)] by blast
  have "s2 = (resolve_current s1 step)\<lparr>skippedStepIds := skippedStepIds s1 @ skip_ids step\<rparr>"
    using assms(6) assms(3) on_step_start_skipped[OF skip, of toTime firstTimestamp ti]
    by (simp add: process_event_unfold[OF ti])
  then show ?thesis using p by simp
qed

theorem skip_propagation_witness:
  "prefix (skippedStepIds (state_after [works_start, grouped ''g1'' logoff_start]))
     (skippedStepIds (state_after [works_start, grouped ''g1'' logoff_start,
        grouped ''g1'' (click_start ''b'' ''1970-01-01T00:00:00.006Z'' [''suite'', ''works''])]))
   \<and> skippedStepIds (state_after [works_start, grouped ''g1'' logoff_start]) = [''a'', ''g1'']
   \<and> heap (state_after [works_start, grouped ''g1'' logoff_start,
        grouped ''g1'' (click_start ''b'' ''1970-01-01T00:00:00.006Z'' [''suite'', ''works'']),
        grouped ''g1'' (click_start ''c'' ''1970-01-01T00:00:00.007Z'' [''suite'', ''works''])])
     = heap (state_after [works_start, grouped ''g1'' logoff_start,
        grouped ''g1'' (click_start ''b'' ''1970-01-01T00:00:00.006Z'' [''suite'', ''works''])])
   \<and> heap (state_after [works_start, grouped ''g1'' logoff_start,
        grouped ''g1'' (click_start ''b'' ''1970-01-01T00:00:00.006Z'' [''suite'', ''works'']),
        grouped ''g1'' (click_start ''c'' ''1970-01-01T00:00:00.007Z'' [''suite'', ''works''])])
     = []"
proof -
  let ?b = "grouped ''g1'' (click_start ''b'' ''1970-01-01T00:00:00.006Z'' [''suite'', ''works''])"
  let ?c = "grouped ''g1'' (click_start ''c'' ''1970-01-01T00:00:00.007Z'' [''suite'', ''works''])"
  let ?s = "state_after [works_start, grouped ''g1'' logoff_start]"
  let ?s1 = "state_after [works_start, grouped ''g1'' logoff_start, ?b]"
  let ?s2 = "state_after [works_start, grouped ''g1'' logoff_start, ?b, ?c]"
  have h1: "''g1'' \<in> set (skippedStepIds ?s)" by code_simp
  have h2: "walk isoTime after_each_marker 0 ?s [?b] = Inr ?s1" by code_simp
  have h3: "event ?c = StepStart" by code_simp
  have h4: "command ?c = Some ((mk_command ''c'' ''click'' [])\<lparr>groupId := Some ''g1''\<rparr>)"
    by code_simp
  have h5: "groupId ((mk_command ''c'' ''click'' [])\<lparr>groupId := Some ''g1''\<rparr>) = Some ''g1''"
    by code_simp
  have h6: "process_event isoTime after_each_marker 0 ?s1 ?c = Inr ?s2" by code_simp
  have v: "skippedStepIds ?s = [''a'', ''g1'']" "heap ?s1 = []" by code_simp+
  from skip_propagation[OF h1 h2 h3 h4 h5 h6] v show ?thesis by simp
qed

subsection \<open>Tests and their steps\<close>

text \<open>
  What the loop does: one test per \<^verbatim>\<open>test:start\<close> event, in sorted order, and every
  step it creates is listed by exactly one test, the one resolved for its event.
\<close>

lemma steps_listed_by_one_test:
  assumes "aggregate toTime localeCompare AFTER_EACH_HOOK events firstTimestamp = Inr s"
  shows "map path (tests s)
           = map test (filter (\<lambda>a. event a = TestStart)
                         (stable_sort (compare_steps localeCompare) events))
       \<and> (\<forall>(e, a) \<in> set (stepStack s).
            \<exists>ti. testForStep (tests s) e = Some ti \<and> a \<in> set (steps (tests s ! ti))
              \<and> (\<forall>j<length (tests s). j \<noteq> ti \<longrightarrow> a \<notin> set (steps (tests s ! j))))"
proof
  show "map path (tests s)
      = map test (filter (\<lambda>a. event a = TestStart)
                    (stable_sort (compare_steps localeCompare) events))"
    using walk_paths[of toTime AFTER_EACH_HOOK firstTimestamp
        "initial_state toTime firstTimestamp (stable_sort (compare_steps localeCompare) events)"
        "stable_sort (compare_steps localeCompare) events" s] assms
    by (simp add: aggregate_def Let_def initial_paths)
  have "attached s" using agg_inv_aggregate[OF assms] by (simp add: agg_inv_def)
  then show "\<forall>(e, a) \<in> set (stepStack s).
            \<exists>ti. testForStep (tests s) e = Some ti \<and> a \<in> set (steps (tests s ! ti))
              \<and> (\<forall>j<length (tests s). j \<noteq> ti \<longrightarrow> a \<notin> set (steps (tests s ! j)))"
    unfolding attached_def by (fastforce split: option.splits)
qed

text \<open>
  C8: the test of an event is looked up by title, the last element of the path, though
  every test stores its path and the step stack is searched by the whole path. Two tests
  titled alike in different suites: the step and the \<^verbatim>\<open>test:end\<close> of the second are filed
  under the first, whose path differs from the path of the events; the first test gets
  the step and the duration 30, and the second test is left without step or duration.
\<close>

theorem same_title_steps_attach_to_first:
  "groupStepsByTest isoTime iso_compare after_each_marker
     [mk_event TestStart ''1970-01-01T00:00:00.000Z'' [''login'', ''works''] None,
      mk_event TestEnd ''1970-01-01T00:00:00.010Z'' [''login'', ''works''] None,
      mk_event TestStart ''1970-01-01T00:00:00.020Z'' [''logout'', ''works''] None,
      click_start ''a'' ''1970-01-01T00:00:00.025Z'' [''logout'', ''works''],
      mk_event TestEnd ''1970-01-01T00:00:00.030Z'' [''logout'', ''works''] None] 0
   = Inr [\<lparr>title = ''works'', path = [''login'', ''works''], result = Passed,
           relativePath = ''spec.cy.ts'', relativeStartTime = 0,
           steps = [\<lparr>step_id = ''a'', parentId = None, step_name = ''click'',
                      args = [], commandId = None,
                      step_relativeStartTime = 25, category = Other, hook = None,
                      step_duration = None, error = None, assertIds = None\<rparr>],
           duration = Some 30\<rparr>,
          \<lparr>title = ''works'', path = [''logout'', ''works''], result = Passed,
           relativePath = ''spec.cy.ts'', relativeStartTime = 20, steps = [],
           duration = None\<rparr>]"
  by code_simp

subsection \<open>What an end event changes\<close>

text \<open>
  C9 (as amended): a \<^verbatim>\<open>step:end\<close> that matches an in-progress step changes nothing
  but that step, and of that step only the duration, the error and, exactly when the
  command is named \<^verbatim>\<open>assert\<close>, the arguments; unless the test path of the event starts
  with the after-each marker, in which case nothing at all is changed.
\<close>

theorem step_end_frame:
  assumes "event step = StepEnd" and "command step = Some c"
    and "testForStep (tests s) step = Some ti"
    and "find_lastStep s step c = Some (ev, a)"
    and "process_event toTime AFTER_EACH_HOOK firstTimestamp s step = Inr s'"
  shows "tests s' = tests s \<and> stepStack s' = stepStack s
       \<and> skippedStepIds s' = skippedStepIds s
       \<and> heap s' =
           (if is_after_each AFTER_EACH_HOOK step then heap s
            else (heap s)[a := (heap s ! a)
                   \<lparr>args := (if cmd_name c = ''assert'' then cmd_args c else args (heap s ! a)),
                    step_duration :=
                      Some (max 0 (toRelativeTime toTime (timestamp step) firstTimestamp
                                     - relativeStartTime (tests s ! ti)
                                     - step_relativeStartTime (heap s ! a))),
                    error := ev_error step\<rparr>])"
  using assms
  by (auto simp: process_event_unfold on_step_end_def end_step_def Let_def split: if_splits)

theorem step_end_frame_witness:
  "heap (state_after [works_start, assert_start, assert_end])
     = [\<lparr>step_id = ''a'', parentId = None, step_name = ''assert'',
         args = [JStr ''expected 2''], commandId = None,
         step_relativeStartTime = 5, category = Other, hook = None,
         step_duration = Some 4, error = None, assertIds = None\<rparr>]
   \<and> tests (state_after [works_start, assert_start, assert_end])
     = tests (state_after [works_start, assert_start])"
proof -
  let ?s = "state_after [works_start, assert_start]"
  let ?s' = "state_after [works_start, assert_start, assert_end]"
  let ?c = "mk_command ''a'' ''assert'' [JStr ''expected 2'']"
  have h: "event assert_end = StepEnd" "command assert_end = Some ?c"
    "testForStep (tests ?s) assert_end = Some 0"
    "find_lastStep ?s assert_end ?c = Some (assert_start, 0)"
    "process_event isoTime after_each_marker 0 ?s assert_end = Inr ?s'"
    by code_simp+
  have v: "\<not> is_after_each after_each_marker assert_end"
    "(heap ?s)[0 := (heap ?s ! 0)
        \<lparr>args := (if cmd_name ?c = ''assert'' then cmd_args ?c else args (heap ?s ! 0)),
         step_duration := Some (max 0 (toRelativeTime isoTime (timestamp assert_end) 0
            - relativeStartTime (tests ?s ! 0) - step_relativeStartTime (heap ?s ! 0))),
         error := ev_error assert_end\<rparr>]
      = [\<lparr>step_id = ''a'', parentId = None, step_name = ''assert'',
         args = [JStr ''expected 2''], commandId = None,
         step_relativeStartTime = 5, category = Other, hook = None,
         step_duration = Some 4, error = None, assertIds = None\<rparr>]"
    by code_simp+
  from step_end_frame[OF h] v show ?thesis by simp
qed

text \<open>
  The end of an assertion in an after-each hook: the arguments of the step are not
  replaced and it gets no duration.
\<close>

theorem after_each_assert_end_ignored:
  "groupStepsByTest isoTime iso_compare after_each_marker
     [mk_event TestStart ''1970-01-01T00:00:00.000Z'' [after_each_marker, ''works''] None,
      mk_event StepStart ''1970-01-01T00:00:00.005Z'' [after_each_marker, ''works'']
        (Some (mk_command ''a'' ''assert'' [JStr ''expected 1''])),
      mk_event StepEnd ''1970-01-01T00:00:00.009Z'' [after_each_marker, ''works'']
        (Some (mk_command ''a'' ''assert'' [JStr ''expected 2'']))] 0
   = Inr [\<lparr>title = ''works'', path = [after_each_marker, ''works''], result = Passed,
           relativePath = ''spec.cy.ts'', relativeStartTime = 0,
           steps = [\<lparr>step_id = ''a'', parentId = None, step_name = ''assert'',
                      args = [JStr ''expected 1''], commandId = None,
                      step_relativeStartTime = 5, category = Other, hook = None,
                      step_duration = None, error = None, assertIds = None\<rparr>],
           duration = None\<rparr>]"
  by code_simp

subsection \<open>Groups do not cross tests\<close>

text \<open>
  C10: when the test resolved for an event differs from the test of the previous
  event, the active group is cleared, and a step started by that event has no parent,
  whatever its group id. Over a whole pass: a step that has a parent shares its group
  id and its test with a started step that carries the parent's id.
\<close>

theorem active_group_scoped_to_test:
  "(testForStep (tests s0) step \<noteq> currentTest s0 \<longrightarrow>
      activeGroup (resolve_current s0 step) = None
      \<and> (event step = StepStart \<longrightarrow>
           process_event toTime AFTER_EACH_HOOK firstTimestamp s0 step = Inr s1 \<longrightarrow>
           (\<forall>(e, a) \<in> set (drop (length (stepStack s0)) (stepStack s1)).
              parentId (heap s1 ! a) = None)))
   \<and> (aggregate toTime localeCompare AFTER_EACH_HOOK events firstTimestamp = Inr s \<longrightarrow>
        (\<forall>(e, a) \<in> set (stepStack s). \<forall>p. parentId (heap s ! a) = Some p \<longrightarrow>
           (\<exists>(e', a') \<in> set (stepStack s). \<exists>c c' g.
              command e = Some c \<and> groupId c = Some g
              \<and> command e' = Some c' \<and> groupId c' = Some g \<and> cmd_id c' = p
              \<and> testForStep (tests s) e' = testForStep (tests s) e)))"
  using cleared_then_no_parent parent_same_test by blast

theorem active_group_scoped_to_test_witness:
  "activeGroup (state_after two_tests_grouped) = Some (''g1'', ''a'')
   \<and> activeGroup (resolve_current (state_after two_tests_grouped)
        (grouped ''g1'' (click_start ''c'' ''1970-01-01T00:00:00.007Z'' [''suite'', ''second''])))
      = None
   \<and> parentId (heap (state_after (two_tests_grouped @
        [grouped ''g1'' (click_start ''c'' ''1970-01-01T00:00:00.007Z'' [''suite'', ''second''])]))
        ! 2) = None
   \<and> parentId (heap (state_after two_tests_grouped) ! 1) = Some ''a''
   \<and> (\<exists>(e', a') \<in> set (stepStack (state_after two_tests_grouped)). \<exists>c c' g.
        command (grouped ''g1'' (click_start ''b'' ''1970-01-01T00:00:00.006Z'' [''suite'', ''first'']))
          = Some c \<and> groupId c = Some g
        \<and> command e' = Some c' \<and> groupId c' = Some g \<and> cmd_id c' = ''a''
        \<and> testForStep (tests (state_after two_tests_grouped)) e'
            = testForStep (tests (state_after two_tests_grouped))
                (grouped ''g1'' (click_start ''b'' ''1970-01-01T00:00:00.006Z'' [''suite'', ''first''])))"
proof -
  let ?b = "grouped ''g1'' (click_start ''b'' ''1970-01-01T00:00:00.006Z'' [''suite'', ''first''])"
  let ?c = "grouped ''g1'' (click_start ''c'' ''1970-01-01T00:00:00.007Z'' [''suite'', ''second''])"
  let ?s0 = "state_after two_tests_grouped"
  let ?s1 = "state_after (two_tests_grouped @ [?c])"
  have h: "testForStep (tests ?s0) ?c \<noteq> currentTest ?s0" "event ?c = StepStart"
    "process_event isoTime after_each_marker 0 ?s0 ?c = Inr ?s1"
    "aggregate isoTime iso_compare after_each_marker two_tests_grouped 0 = Inr ?s0"
    by code_simp+
  have v: "activeGroup ?s0 = Some (''g1'', ''a'')"
    "(?c, 2) \<in> set (drop (length (stepStack ?s0)) (stepStack ?s1))"
    "(?b, 1) \<in> set (stepStack ?s0)" "parentId (heap ?s0 ! 1) = Some ''a''"
    by code_simp+
  from active_group_scoped_to_test[of ?s0 ?c isoTime after_each_marker 0 ?s1 iso_compare
      two_tests_grouped ?s0]
    h v show ?thesis by fastforce
qed

end
